theory Spec2Isabelle
  imports Complex_Main "HOL-Library.Char_ord" "HOL-Library.List_Lexorder" "HOL-Library.Log_Nat"
begin

text \<open>
  A model of \<^verbatim>\<open>scale_images.py\<close>: the two square transforms, the processing of one
  file and the batch driver, with the imaging library and the file system as far as the
  script observes them, followed by the properties of the script.
\<close>

section \<open>Errors\<close>

text \<open>
  A Python exception is a value. Every exception of the model is an instance of
  \<^verbatim>\<open>Exception\<close>; \<open>str_error\<close> is what \<^verbatim>\<open>str(e)\<close> prints.
\<close>

datatype error =
  ZeroDivisionError | IndexError | ValueError string | OSError string | RuntimeError string

fun str_error :: "error \<Rightarrow> string" where
  "str_error ZeroDivisionError = ''division by zero''"
| "str_error IndexError = ''list index out of range''"
| "str_error (ValueError m) = m"
| "str_error (OSError m) = m"
| "str_error (RuntimeError m) = m"

section \<open>Images\<close>

text \<open>
  An image is what the script can observe of a \<^verbatim>\<open>PIL.Image.Image\<close>: its mode, its
  size and the EXIF orientation tag (\<open>1\<close> when the file has none). The pixel data is
  kept symbolic: the chain of library operations that produced it, each with the
  arguments it works with, since resampling and colour conversion are compiled code of
  the library.
\<close>

datatype resampling = NEAREST | BICUBIC | LANCZOS

datatype transpose_method =
  FLIP_LEFT_RIGHT | ROTATE_180 | FLIP_TOP_BOTTOM | TRANSPOSE | ROTATE_270 | TRANSVERSE | ROTATE_90

datatype pixels =
    Decoded string
  | Transposed transpose_method pixels
  | Converted string pixels
  | Cropped "int \<times> int \<times> int \<times> int" pixels
  | Resized resampling "int \<times> int" pixels
  | Blank string "int \<times> int" "int \<times> int \<times> int \<times> int"
  | Pasted pixels "int \<times> int" pixels pixels

record image =
  im_mode :: string
  im_width :: int
  im_height :: int
  im_orientation :: int
  im_pixels :: pixels

definition im_size :: "image \<Rightarrow> int \<times> int" where
  "im_size im = (im_width im, im_height im)"

subsection \<open>The operations of the imaging library that the script calls\<close>

text \<open>
  \<^verbatim>\<open>ImageOps.exif_transpose\<close>: the orientation tag selects a transposition; the result
  carries no orientation tag. The methods that exchange the two axes exchange width and
  height. Without a tag (or with the tag \<open>1\<close>) the result is a copy.
\<close>

definition transpose_of :: "int \<Rightarrow> transpose_method option" where
  "transpose_of orientation =
     (if orientation = 2 then Some FLIP_LEFT_RIGHT
      else if orientation = 3 then Some ROTATE_180
      else if orientation = 4 then Some FLIP_TOP_BOTTOM
      else if orientation = 5 then Some TRANSPOSE
      else if orientation = 6 then Some ROTATE_270
      else if orientation = 7 then Some TRANSVERSE
      else if orientation = 8 then Some ROTATE_90
      else None)"

definition swaps_axes :: "transpose_method \<Rightarrow> bool" where
  "swaps_axes m = (m = TRANSPOSE \<or> m = ROTATE_270 \<or> m = TRANSVERSE \<or> m = ROTATE_90)"

definition exif_transpose :: "image \<Rightarrow> image" where
  "exif_transpose im =
     (case transpose_of (im_orientation im) of
        None \<Rightarrow> im
      | Some m \<Rightarrow>
          \<lparr>im_mode = im_mode im,
           im_width = (if swaps_axes m then im_height im else im_width im),
           im_height = (if swaps_axes m then im_width im else im_height im),
           im_orientation = 1,
           im_pixels = Transposed m (im_pixels im)\<rparr>)"

text \<open>\<^verbatim>\<open>Image.convert(mode)\<close>: same size, the new mode.\<close>

definition convert :: "image \<Rightarrow> string \<Rightarrow> image" where
  "convert im m = im\<lparr>im_mode := m, im_pixels := Converted m (im_pixels im)\<rparr>"

text \<open>
  \<^verbatim>\<open>Image.new(mode, size, color)\<close> raises \<^verbatim>\<open>ValueError\<close> on a negative width or
  height.
\<close>

definition new :: "string \<Rightarrow> int \<times> int \<Rightarrow> int \<times> int \<times> int \<times> int \<Rightarrow> error + image" where
  "new m sz color =
     (if fst sz < 0 \<or> snd sz < 0 then Inl (ValueError ''Width and height must be >= 0'')
      else Inr \<lparr>im_mode = m, im_width = fst sz, im_height = snd sz, im_orientation = 1,
                im_pixels = Blank m sz color\<rparr>)"

text \<open>
  \<^verbatim>\<open>Image.resize(size, resample)\<close>: an image of exactly the requested size, in the same
  mode; a copy when the size is already the requested one; \<^verbatim>\<open>ValueError\<close> when a
  requested side is not positive. The library replaces the requested filter by
  \<^verbatim>\<open>NEAREST\<close> when the image is in mode \<^verbatim>\<open>1\<close> or \<^verbatim>\<open>P\<close>:
  \<^verbatim>\<open>
    if self.size == size and box == (0, 0) + self.size:
        return self.copy()
    if self.mode in ("1", "P"):
        resample = Resampling.NEAREST
  \<close>
  The pixel term records the filter that is applied.
\<close>

definition resize :: "image \<Rightarrow> int \<times> int \<Rightarrow> resampling \<Rightarrow> error + image" where
  "resize im sz resample0 =
     (if im_size im = sz then Inr im
      else
        let resample = (if im_mode im \<in> {''1'', ''P''} then NEAREST else resample0)
        in if fst sz < 1 \<or> snd sz < 1 then Inl (ValueError ''height and width must be > 0'')
           else Inr (im\<lparr>im_width := fst sz, im_height := snd sz,
                         im_pixels := Resized resample sz (im_pixels im)\<rparr>))"

text \<open>
  \<^verbatim>\<open>Image.crop(box)\<close> with \<open>box = (left, upper, right, lower)\<close>: an image of size
  \<open>(right - left, lower - upper)\<close>; \<^verbatim>\<open>ValueError\<close> when the box is inverted.
\<close>

definition crop :: "image \<Rightarrow> int \<times> int \<times> int \<times> int \<Rightarrow> error + image" where
  "crop im box =
     (case box of (left, upper, right, lower) \<Rightarrow>
        if right < left then Inl (ValueError (''Coordinate 'right' is less than 'left'' @ [CHR 0x27]))
        else if lower < upper then Inl (ValueError (''Coordinate 'lower' is less than 'upper'' @ [CHR 0x27]))
        else Inr (im\<lparr>im_width := right - left, im_height := lower - upper,
                      im_pixels := Cropped box (im_pixels im)\<rparr>))"

subsection \<open>Floating-point numbers\<close>

text \<open>
  A Python float is an IEEE double: a rational \<open>m * 2 ^ e\<close> with \<open>\<bar>m\<bar> < 2 ^ 53\<close>. The
  model keeps a float as the rational it denotes. \<open>fl x\<close> is the double nearest to the
  exact value \<open>x\<close>, ties to the even mantissa: the result of every float operation of
  Python (\<^verbatim>\<open>a / b\<close> of two integers, \<^verbatim>\<open>float(n)\<close>, and \<open>+\<close>, \<open>-\<close>, \<open>*\<close>, \<open>/\<close> of two
  floats) is \<open>fl\<close> of the exact result. The exponent range is not bounded: overflow and
  subnormal numbers, which image sizes do not reach, are not modelled.
  \<open>ilog2 x\<close> is the integer \<open>l\<close> with \<open>2 ^ l \<le> x < 2 ^ (l + 1)\<close>, for \<open>x > 0\<close>.
\<close>

definition ilog2 :: "rat \<Rightarrow> int" where
  "ilog2 x =
     (let (a, b) = quotient_of x;
          d = bitlen a - bitlen b
      in if 2 powi d \<le> x then d else d - 1)"

text \<open>Rounding to the nearest integer, a tie to the even one.\<close>

definition rne :: "rat \<Rightarrow> int" where
  "rne q =
     (let n = \<lfloor>q\<rfloor>; r = q - of_int n
      in if r < 1 / 2 then n else if 1 / 2 < r then n + 1 else if even n then n else n + 1)"

definition fl :: "rat \<Rightarrow> rat" where
  "fl x =
     (if x = 0 then 0
      else let e = ilog2 \<bar>x\<bar> - 52
           in sgn x * of_int (rne (\<bar>x\<bar> / 2 powi e)) * 2 powi e)"

text \<open>
  \<^verbatim>\<open>Image.thumbnail(size, resample)\<close>. The library computes the target size in
  \<^verbatim>\<open>preserve_aspect_ratio\<close>, with the helper \<^verbatim>\<open>round_aspect\<close>:
  \<^verbatim>\<open>
    def round_aspect(number, key):
        return max(min(math.floor(number), math.ceil(number), key=key), 1)
    x, y = provided_size
    if x >= self.width and y >= self.height:
        return
    aspect = self.width / self.height
    if x / y >= aspect:
        x = round_aspect(y * aspect, key=lambda n: abs(aspect - n / y))
    else:
        y = round_aspect(x / aspect, key=lambda n: 0 if n == 0 else abs(aspect - x / n))
    return x, y
  \<close>
  Every quotient, product and difference there is a float operation. \<^verbatim>\<open>min\<close> with a key
  returns its first argument unless the key of the second is strictly smaller. A
  division by zero is \<^verbatim>\<open>ZeroDivisionError\<close>.
\<close>

definition round_aspect :: "rat \<Rightarrow> (int \<Rightarrow> rat) \<Rightarrow> int" where
  "round_aspect number key =
     max (if key \<lceil>number\<rceil> < key \<lfloor>number\<rfloor> then \<lceil>number\<rceil> else \<lfloor>number\<rfloor>) 1"

definition preserve_aspect_ratio :: "int \<times> int \<Rightarrow> image \<Rightarrow> error + (int \<times> int) option" where
  "preserve_aspect_ratio provided_size self =
     (case provided_size of (x, y) \<Rightarrow>
        if x \<ge> im_width self \<and> y \<ge> im_height self then Inr None
        else if im_height self = 0 then Inl ZeroDivisionError
        else
          let aspect = fl (of_int (im_width self) / of_int (im_height self)) in
          if y = 0 then Inl ZeroDivisionError
          else if fl (of_int x / of_int y) \<ge> aspect then
            Inr (Some (round_aspect (fl (fl (of_int y) * aspect))
                         (\<lambda>n. \<bar>fl (aspect - fl (of_int n / of_int y))\<bar>), y))
          else if aspect = 0 then Inl ZeroDivisionError
          else
            Inr (Some (x, round_aspect (fl (fl (of_int x) / aspect))
                            (\<lambda>n. if n = 0 then 0
                                 else \<bar>fl (aspect - fl (of_int x / of_int n))\<bar>))))"

definition thumbnail :: "image \<Rightarrow> int \<times> int \<Rightarrow> resampling \<Rightarrow> error + image" where
  "thumbnail self sz resample =
     (case preserve_aspect_ratio sz self of
        Inl e \<Rightarrow> Inl e
      | Inr None \<Rightarrow> Inr self
      | Inr (Some final_size) \<Rightarrow>
          if im_size self \<noteq> final_size then resize self final_size resample else Inr self)"

text \<open>
  \<^verbatim>\<open>Image.paste(im, (x, y), mask)\<close> changes the pixels of the receiving image only: its
  size and mode stay.
\<close>

definition paste :: "image \<Rightarrow> image \<Rightarrow> int \<times> int \<Rightarrow> image \<Rightarrow> image" where
  "paste self im box msk =
     self\<lparr>im_pixels := Pasted (im_pixels self) box (im_pixels im) (im_pixels msk)\<rparr>"

section \<open>The script\<close>

definition SIZES :: "int list" where
  "SIZES = [1024, 512, 256, 128, 64, 32]"

definition SUPPORTED_SUFFIXES :: "string set" where
  "SUPPORTED_SUFFIXES =
     {''.jpg'', ''.jpeg'', ''.png'', ''.webp'', ''.bmp'', ''.tif'', ''.tiff'', ''.heic''}"

definition make_square_fit :: "image \<Rightarrow> int \<Rightarrow> error + image" where
  "make_square_fit img0 sz =
     (let img = exif_transpose img0;
          img = (if im_mode img \<notin> {''RGBA'', ''LA''} then convert img ''RGBA'' else img)
      in case thumbnail img (sz, sz) LANCZOS of
           Inl e \<Rightarrow> Inl e
         | Inr img_thumb \<Rightarrow>
             (case new ''RGBA'' (sz, sz) (0, 0, 0, 0) of
                Inl e \<Rightarrow> Inl e
              | Inr canvas \<Rightarrow>
                  let x = (sz - im_width img_thumb) div 2;
                      y = (sz - im_height img_thumb) div 2
                  in Inr (paste canvas img_thumb (x, y) img_thumb)))"

text \<open>
  The image that \<open>make_square_fit\<close> hands to \<^verbatim>\<open>thumbnail\<close> (its first three lines):
  orientation-normalised and in a mode with an alpha channel.
\<close>

definition fit_source :: "image \<Rightarrow> image" where
  "fit_source img0 =
     (let img = exif_transpose img0
      in if im_mode img \<notin> {''RGBA'', ''LA''} then convert img ''RGBA'' else img)"

definition make_square_cover :: "image \<Rightarrow> int \<Rightarrow> error + image" where
  "make_square_cover img0 sz =
     (let img = exif_transpose img0;
          (w, h) = im_size img;
          side = min w h;
          left = (w - side) div 2;
          top = (h - side) div 2
      in case crop img (left, top, left + side, top + side) of
           Inl e \<Rightarrow> Inl e
         | Inr img_cropped \<Rightarrow>
             (case resize img_cropped (sz, sz) LANCZOS of
                Inl e \<Rightarrow> Inl e
              | Inr img_cropped \<Rightarrow>
                  Inr (if im_mode img_cropped \<notin> {''RGBA'', ''LA''}
                       then convert img_cropped ''RGBA'' else img_cropped)))"

subsection \<open>Strings and paths\<close>

text \<open>
  A character is a code point below 256. \<^verbatim>\<open>str.lower\<close> maps the capital letters of
  that range (\<open>A\<close> to \<open>Z\<close>, and \<open>0xC0\<close> to \<open>0xDE\<close> except the multiplication sign
  \<open>0xD7\<close>) to the small ones, 32 places up.
\<close>

definition lower_char :: "char \<Rightarrow> char" where
  "lower_char c =
     (let n = (of_char c :: nat)
      in if (65 \<le> n \<and> n \<le> 90) \<or> (192 \<le> n \<and> n \<le> 222 \<and> n \<noteq> 215)
         then char_of (n + 32) else c)"

definition lower :: "string \<Rightarrow> string" where
  "lower s = map lower_char s"

definition startswith :: "string \<Rightarrow> string \<Rightarrow> bool" where
  "startswith s p = (take (length p) s = p)"

text \<open>\<^verbatim>\<open>s.split(c, 1)\<close>: at most one split, at the first occurrence of \<open>c\<close>.\<close>

definition split1 :: "string \<Rightarrow> char \<Rightarrow> string list" where
  "split1 s c =
     (if c \<in> set s then [takeWhile (\<lambda>x. x \<noteq> c) s, tl (dropWhile (\<lambda>x. x \<noteq> c) s)] else [s])"

text \<open>\<^verbatim>\<open>xs[i]\<close> for \<open>i \<ge> 0\<close> raises \<^verbatim>\<open>IndexError\<close> out of range.\<close>

definition item :: "'a list \<Rightarrow> nat \<Rightarrow> error + 'a" where
  "item xs i = (if i < length xs then Inr (xs ! i) else Inl IndexError)"

text \<open>\<^verbatim>\<open>str(n)\<close> of an integer: its decimal digits.\<close>

fun str_nat :: "nat \<Rightarrow> string" where
  "str_nat n =
     (if n < 10 then [char_of (48 + n)] else str_nat (n div 10) @ [char_of (48 + n mod 10)])"

declare str_nat.simps [simp del]

definition str_int :: "int \<Rightarrow> string" where
  "str_int i = (if i < 0 then ''-'' @ str_nat (nat (- i)) else str_nat (nat i))"

text \<open>
  \<^verbatim>\<open>s.rfind(c)\<close>: the last index of \<open>c\<close>, or \<open>-1\<close>. \<^verbatim>\<open>PurePath.suffix\<close> and
  \<^verbatim>\<open>PurePath.stem\<close> cut the file name at its last dot, unless that dot is the first or
  the last character of the name (or there is none):
  \<^verbatim>\<open>
    i = name.rfind('.')
    if 0 < i < len(name) - 1: return name[i:]     # stem: name[:i]
    else: return ''                               # stem: name
  \<close>
\<close>

fun rfind :: "string \<Rightarrow> char \<Rightarrow> int" where
  "rfind [] c = - 1"
| "rfind (x # xs) c =
     (let r = rfind xs c in if 0 \<le> r then r + 1 else if x = c then 0 else - 1)"

definition suffix :: "string \<Rightarrow> string" where
  "suffix nm =
     (let i = rfind nm CHR ''.''
      in if 0 < i \<and> i < int (length nm) - 1 then drop (nat i) nm else [])"

definition stem :: "string \<Rightarrow> string" where
  "stem nm =
     (let i = rfind nm CHR ''.''
      in if 0 < i \<and> i < int (length nm) - 1 then take (nat i) nm else nm)"

text \<open>
  A path is a directory and a file name in it. \<open>joinpath\<close> is the text of
  \<^verbatim>\<open>dir / name\<close>: a separator is added unless the directory is the root.
\<close>

record path =
  p_parent :: string
  p_name :: string

definition joinpath :: "string \<Rightarrow> string \<Rightarrow> string" where
  "joinpath d nm = (if d = ''/'' then d @ nm else d @ ''/'' @ nm)"

definition path_str :: "path \<Rightarrow> string" where
  "path_str p = joinpath (p_parent p) (p_name p)"

subsection \<open>The world outside the script\<close>

text \<open>
  What the file system and the image files answer during one run. \<open>resolve\<close> is
  \<^verbatim>\<open>Path(s).expanduser().resolve()\<close>, which raises (\<^verbatim>\<open>RuntimeError\<close> for the home of
  an unknown user, for one) or gives the absolute path; \<open>iterdir\<close> lists the entries of a directory in
  the order the system yields them, each with the answer of \<^verbatim>\<open>is_file()\<close>;
  \<open>image_open\<close> is \<^verbatim>\<open>Image.open\<close> followed by the decoding of the file, which raises or
  gives the image; \<open>mkdir_error\<close> and \<open>save_error\<close> say whether creating the output
  directory and opening a target file for writing fail. The answers are fixed for the
  run, so the inputs are files that the run does not write. The other calls of the
  script into the standard library (\<^verbatim>\<open>print\<close>, \<^verbatim>\<open>iterdir\<close>, \<^verbatim>\<open>is_file\<close>) are taken to
  succeed.
\<close>

record world =
  resolve :: "string \<Rightarrow> error + string"
  path_exists :: "string \<Rightarrow> bool"
  is_dir :: "string \<Rightarrow> bool"
  mkdir_error :: "string \<Rightarrow> error option"
  iterdir :: "string \<Rightarrow> (string \<times> bool) list"
  image_open :: "string \<Rightarrow> error + image"
  save_error :: "string \<Rightarrow> error option"

text \<open>
  The console is the list of the lines printed so far. The fixed texts of the script are
  constructors (they hold characters beyond code point 255); the two status lines of
  \<^verbatim>\<open>process_image\<close> are plain text.
\<close>

datatype line =
    Usage
  | InvalidMode
  | InputDirNotFound string
  | NoImagesFound
  | Announce nat string string string
  | Plain string

text \<open>
  The state of a run: the files written (path to saved image) and the console.
\<close>

record sys =
  files :: "string \<rightharpoonup> image"
  stdout :: "line list"

definition print :: "line \<Rightarrow> sys \<Rightarrow> sys" where
  "print l st = st\<lparr>stdout := stdout st @ [l]\<rparr>"

text \<open>A run that starts with no file written and an empty console.\<close>

definition empty_sys :: sys where
  "empty_sys = \<lparr>files = Map.empty, stdout = []\<rparr>"

text \<open>
  How the process ends: \<^verbatim>\<open>sys.exit(n)\<close> or the return of \<^verbatim>\<open>main\<close> (status 0), or
  an exception that nothing catches: the interpreter prints the traceback and the exit
  status is 1.
\<close>

datatype outcome = Exit int | Uncaught error


text \<open>
  \<^verbatim>\<open>Image.save(out_path, format="PNG", optimize=True)\<close>: the target holds the image
  afterwards, replacing what it held; a failure to open the target leaves the directory
  as it was.
\<close>

definition save :: "world \<Rightarrow> image \<Rightarrow> string \<Rightarrow> sys \<Rightarrow> error + sys" where
  "save w im out_path st =
     (case save_error w out_path of
        Some e \<Rightarrow> Inl e
      | None \<Rightarrow> Inr (st\<lparr>files := (files st)(out_path \<mapsto> im)\<rparr>))"

subsection \<open>\<^verbatim>\<open>process_image\<close>\<close>

text \<open>
  The loop \<^verbatim>\<open>for s in SIZES\<close> inside the \<^verbatim>\<open>try\<close>: it stops at the first exception,
  and what was saved before stays saved.
\<close>

definition out_name :: "path \<Rightarrow> int \<Rightarrow> string" where
  "out_name in_path s = stem (p_name in_path) @ ''_'' @ str_int s @ ''x'' @ str_int s @ ''.png''"

fun for_sizes :: "world \<Rightarrow> image \<Rightarrow> path \<Rightarrow> string \<Rightarrow> string \<Rightarrow> int list \<Rightarrow> sys \<Rightarrow> sys \<times> error option"
where
  "for_sizes w img in_path out_dir md [] st = (st, None)"
| "for_sizes w img in_path out_dir md (s # ss) st =
     (case (if md = ''cover'' then make_square_cover img s else make_square_fit img s) of
        Inl e \<Rightarrow> (st, Some e)
      | Inr out_img \<Rightarrow>
          let out_path = joinpath out_dir (out_name in_path s)
          in (case save w out_img out_path st of
                Inl e \<Rightarrow> (st, Some e)
              | Inr st' \<Rightarrow> for_sizes w img in_path out_dir md ss st'))"

definition process_image :: "world \<Rightarrow> path \<Rightarrow> string \<Rightarrow> string \<Rightarrow> sys \<Rightarrow> sys" where
  "process_image w in_path out_dir md st =
     (case image_open w (path_str in_path) of
        Inl e \<Rightarrow> print (Plain (''FEHLER bei '' @ path_str in_path @ '': '' @ str_error e)) st
      | Inr img \<Rightarrow>
          (case for_sizes w img in_path out_dir md SIZES st of
             (st', Some e) \<Rightarrow>
               print (Plain (''FEHLER bei '' @ path_str in_path @ '': '' @ str_error e)) st'
           | (st', None) \<Rightarrow> print (Plain (''OK  : '' @ p_name in_path)) st'))"

text \<open>
  What the processing of one file contributes, read off a run of \<open>process_image\<close> on the
  empty state: the exception that ends its \<^verbatim>\<open>try\<close> block (if any), the line it prints,
  and the files it writes.
\<close>

definition failure :: "world \<Rightarrow> string \<Rightarrow> string \<Rightarrow> path \<Rightarrow> error option" where
  "failure w out_dir md p =
     (case image_open w (path_str p) of
        Inl e \<Rightarrow> Some e
      | Inr img \<Rightarrow> snd (for_sizes w img p out_dir md SIZES empty_sys))"

definition status_line :: "world \<Rightarrow> string \<Rightarrow> string \<Rightarrow> path \<Rightarrow> line" where
  "status_line w out_dir md p =
     (case failure w out_dir md p of
        Some e \<Rightarrow> Plain (''FEHLER bei '' @ path_str p @ '': '' @ str_error e)
      | None \<Rightarrow> Plain (''OK  : '' @ p_name p))"

definition written :: "world \<Rightarrow> string \<Rightarrow> string \<Rightarrow> path \<Rightarrow> (string \<rightharpoonup> image)" where
  "written w out_dir md p = files (process_image w p out_dir md empty_sys)"

subsection \<open>\<^verbatim>\<open>main\<close>\<close>

text \<open>The mode named by the third argument, lines 69 to 77 of the script.\<close>

definition mode_of :: "string \<Rightarrow> error + string" where
  "mode_of arg =
     (let m = lower arg
      in if m \<in> {''fit'', ''--mode=fit''} then Inr ''fit''
         else if m \<in> {''cover'', ''--mode=cover''} then Inr ''cover''
         else if startswith m ''--mode='' then item (split1 m CHR ''='') 1
         else Inr m)"

text \<open>
  The matched files: \<^verbatim>\<open>sorted(p for p in in_dir.iterdir() if p.is_file() and
  p.suffix.lower() in SUPPORTED_SUFFIXES)\<close>. Paths of one directory are ordered by
  their names, compared character by character (the order of POSIX paths).
\<close>

definition matched :: "string \<times> bool \<Rightarrow> bool" where
  "matched e = (snd e \<and> lower (suffix (fst e)) \<in> SUPPORTED_SUFFIXES)"

definition images_of :: "world \<Rightarrow> string \<Rightarrow> path list" where
  "images_of w in_dir =
     sort_key p_name
       (map (\<lambda>e. \<lparr>p_parent = in_dir, p_name = fst e\<rparr>) (filter matched (iterdir w in_dir)))"

text \<open>The loop \<^verbatim>\<open>for p in images: process_image(p, out_dir, mode)\<close>.\<close>

fun process_all :: "world \<Rightarrow> path list \<Rightarrow> string \<Rightarrow> string \<Rightarrow> sys \<Rightarrow> sys" where
  "process_all w [] out_dir md st = st"
| "process_all w (p # ps) out_dir md st =
     process_all w ps out_dir md (process_image w p out_dir md st)"

definition main :: "world \<Rightarrow> string list \<Rightarrow> sys \<Rightarrow> outcome \<times> sys" where
  "main w argv st =
     (if length argv < 3 then (Exit 1, print Usage st)
      else
        case resolve w (argv ! 1) of
          Inl e \<Rightarrow> (Uncaught e, st)
        | Inr in_dir \<Rightarrow>
        case resolve w (argv ! 2) of
          Inl e \<Rightarrow> (Uncaught e, st)
        | Inr out_dir \<Rightarrow>
        case (if length argv \<ge> 4 then mode_of (argv ! 3) else Inr ''fit'') of
          Inl e \<Rightarrow> (Uncaught e, st)
        | Inr md \<Rightarrow>
            if length argv \<ge> 4 \<and> md \<notin> {''fit'', ''cover''} then (Exit 2, print InvalidMode st)
            else if \<not> path_exists w in_dir \<or> \<not> is_dir w in_dir
              then (Exit 1, print (InputDirNotFound in_dir) st)
            else
              (case mkdir_error w out_dir of
                 Some e \<Rightarrow> (Uncaught e, st)
               | None \<Rightarrow>
                   let images = images_of w in_dir
                   in if images = [] then (Exit 0, print NoImagesFound st)
                      else (Exit 0,
                            process_all w images out_dir md
                              (print (Announce (length images) in_dir out_dir md) st))))"

text \<open>
  Lines 82 to 99 of \<open>main\<close>, for the resolved directories and the chosen mode: the part of
  \<open>main\<close> that follows the parsing of the mode.
\<close>

definition batch :: "world \<Rightarrow> string \<Rightarrow> string \<Rightarrow> string \<Rightarrow> sys \<Rightarrow> outcome \<times> sys" where
  "batch w in_dir out_dir md st =
     (if \<not> path_exists w in_dir \<or> \<not> is_dir w in_dir
        then (Exit 1, print (InputDirNotFound in_dir) st)
      else
        (case mkdir_error w out_dir of
           Some e \<Rightarrow> (Uncaught e, st)
         | None \<Rightarrow>
             let images = images_of w in_dir
             in if images = [] then (Exit 0, print NoImagesFound st)
                else (Exit 0,
                      process_all w images out_dir md
                        (print (Announce (length images) in_dir out_dir md) st))))"

text \<open>The transform that the loop applies for a mode (lines 47 to 50).\<close>

definition render :: "string \<Rightarrow> image \<Rightarrow> int \<Rightarrow> error + image" where
  "render md img s = (if md = ''cover'' then make_square_cover img s else make_square_fit img s)"

text \<open>The part of an output name that follows the stem.\<close>

definition size_tag :: "int \<Rightarrow> string" where
  "size_tag s = ''_'' @ str_int s @ ''x'' @ str_int s @ ''.png''"

section \<open>Example inputs\<close>

text \<open>
  A landscape photograph without orientation tag, the same photograph taken with the
  camera turned (orientation 6), a small icon taken sideways, a photograph whose two
  candidate heights at 256, 191 and 192, are equally near in exact arithmetic, and a
  drawing with a palette.
\<close>

definition photo :: image where
  "photo = \<lparr>im_mode = ''RGB'', im_width = 800, im_height = 600, im_orientation = 1,
            im_pixels = Decoded ''photo.jpg''\<rparr>"

definition turned :: image where
  "turned = photo\<lparr>im_orientation := 6\<rparr>"

definition tie_photo :: image where
  "tie_photo = \<lparr>im_mode = ''RGB'', im_width = 1532, im_height = 1146, im_orientation = 1,
                im_pixels = Decoded ''tie.jpg''\<rparr>"

definition drawing :: image where
  "drawing = \<lparr>im_mode = ''P'', im_width = 800, im_height = 600, im_orientation = 1,
              im_pixels = Decoded ''drawing.png''\<rparr>"

definition icon :: image where
  "icon = \<lparr>im_mode = ''RGBA'', im_width = 20, im_height = 10, im_orientation = 6,
           im_pixels = Decoded ''icon.png''\<rparr>"

text \<open>
  A small world: the directory \<open>/in\<close> with one decodable photograph among other entries,
  the directory \<open>/empty\<close> without a matched file, and no other directory; there is no
  user \<open>nosuchuser\<close>.
\<close>

definition cli_world :: world where
  "cli_world =
     \<lparr>resolve = (\<lambda>p. if startswith p ''~nosuchuser''
                     then Inl (RuntimeError ''Could not determine home directory.'')
                     else Inr p),
      path_exists = (\<lambda>p. p \<in> {''/in'', ''/empty'', ''/in/photo.jpg''}),
      is_dir = (\<lambda>p. p \<in> {''/in'', ''/empty''}),
      mkdir_error = (\<lambda>p. if p = ''/in/photo.jpg'' then Some (OSError ''File exists'') else None),
      iterdir = (\<lambda>d. if d = ''/in''
                     then [(''photo.jpg'', True), (''notes.txt'', True), (''b.PNG'', True),
                           (''sub.png'', False), (''a.tar.JPeG'', True)]
                     else if d = ''/empty'' then [(''notes.txt'', True), (''anim.gif'', True)]
                     else []),
      image_open = (\<lambda>p. if p = ''/in/photo.jpg'' then Inr photo
                        else Inl (OSError ''cannot identify image file'')),
      save_error = (\<lambda>p. None)\<rparr>"

text \<open>
  A portrait scan, and a world for batches: \<open>/twins\<close> holds two files of one stem,
  \<open>/pair\<close> two files of different stems, \<open>/solo\<close> one file; saving to
  \<open>/blocked/photo_256x256.png\<close> fails.
\<close>

definition scan :: image where
  "scan = \<lparr>im_mode = ''RGBA'', im_width = 600, im_height = 800, im_orientation = 1,
           im_pixels = Decoded ''photo.png''\<rparr>"

definition batch_world :: world where
  "batch_world =
     \<lparr>resolve = (\<lambda>p. Inr p),
      path_exists = (\<lambda>p. p \<in> {''/twins'', ''/solo'', ''/pair''}),
      is_dir = (\<lambda>p. p \<in> {''/twins'', ''/solo'', ''/pair''}),
      mkdir_error = (\<lambda>p. None),
      iterdir = (\<lambda>d. if d = ''/twins'' then [(''photo.png'', True), (''photo.jpg'', True)]
                     else if d = ''/solo'' then [(''photo.jpg'', True)]
                     else if d = ''/pair'' then [(''scan.png'', True), (''photo.jpg'', True)]
                     else []),
      image_open = (\<lambda>p. if p \<in> {''/twins/photo.jpg'', ''/solo/photo.jpg'', ''/pair/photo.jpg''}
                          then Inr photo
                        else if p \<in> {''/twins/photo.png'', ''/pair/scan.png''} then Inr scan
                        else Inl (OSError ''cannot identify image file'')),
      save_error = (\<lambda>p. if p = ''/blocked/photo_256x256.png''
                        then Some (OSError ''Is a directory'') else None)\<rparr>"

section \<open>Rounding to a double\<close>

lemma two_powi_pos: "0 < (2::rat) powi n"
  by simp

lemma two_powi_add: "(2::rat) powi (m + n) = 2 powi m * 2 powi n"
  by (simp add: power_int_add)

lemma two_powi_diff: "(2::rat) powi (m - n) = 2 powi m / 2 powi n"
  by (simp add: power_int_diff)

lemma two_powi_less: "(2::rat) powi m < 2 powi n \<longleftrightarrow> m < n"
proof
  assume "(2::rat) powi m < 2 powi n"
  show "m < n"
  proof (rule ccontr)
    assume "\<not> m < n"
    then have "n \<le> m" by simp
    then have "(2::rat) powi n \<le> 2 powi m" by (intro power_int_increasing) simp_all
    with \<open>(2::rat) powi m < 2 powi n\<close> show False by simp
  qed
next
  assume "m < n"
  then show "(2::rat) powi m < 2 powi n" by (intro power_int_strict_increasing) simp_all
qed

lemma of_int_bitlen_bounds:
  assumes "0 < a"
  shows "(2::rat) powi (bitlen a - 1) \<le> of_int a" and "of_int a < (2::rat) powi bitlen a"
proof -
  from bitlen_bounds[OF assms] have lo: "2 ^ nat (bitlen a - 1) \<le> a" and hi: "a < 2 ^ nat (bitlen a)"
    by simp_all
  have k: "1 \<le> bitlen a" using assms bitlen_eq_zero_iff[of a] bitlen_nonneg[of a] by linarith
  have "(of_int (2 ^ nat (bitlen a - 1)) :: rat) \<le> of_int a" using lo by (simp only: of_int_le_iff)
  then show "(2::rat) powi (bitlen a - 1) \<le> of_int a"
    using k by (simp add: power_int_nonneg_exp)
  have "(of_int a :: rat) < of_int (2 ^ nat (bitlen a))" using hi by (simp only: of_int_less_iff)
  then show "of_int a < (2::rat) powi bitlen a"
    using k by (simp add: power_int_nonneg_exp)
qed

lemma ilog2_bounds:
  assumes "0 < x"
  shows "2 powi ilog2 x \<le> x" and "x < 2 powi (ilog2 x + 1)"
proof -
  obtain a b where q: "quotient_of x = (a, b)" by force
  have b: "0 < b" using q by (rule quotient_of_denom_pos)
  have x: "x = of_int a / of_int b" using q by (rule quotient_of_div)
  have a: "0 < a" using assms b unfolding x by (simp add: zero_less_divide_iff)
  define d where "d = bitlen a - bitlen b"
  note A = of_int_bitlen_bounds[OF a] and B = of_int_bitlen_bounds[OF b]
  have bp: "(0::rat) < of_int b" using b by simp
  have "x < 2 powi bitlen a / of_int b" unfolding x using A(2) bp by (simp add: divide_strict_right_mono)
  also have "\<dots> \<le> 2 powi bitlen a / 2 powi (bitlen b - 1)"
    using B(1) b by (intro divide_left_mono) (simp_all add: zero_less_mult_iff)
  also have "\<dots> = 2 powi (d + 1)" unfolding d_def by (simp add: two_powi_diff[symmetric] algebra_simps)
  finally have up: "x < 2 powi (d + 1)" .
  have "2 powi (d - 1) = (2::rat) powi (bitlen a - 1) / 2 powi bitlen b"
    unfolding d_def by (simp add: two_powi_diff[symmetric] algebra_simps)
  also have "\<dots> < 2 powi (bitlen a - 1) / of_int b"
    using B(2) b by (intro divide_strict_left_mono) (simp_all add: zero_less_mult_iff)
  also have "\<dots> \<le> x" unfolding x using A(1) bp by (simp add: divide_right_mono)
  finally have lo: "2 powi (d - 1) < x" .
  have i: "ilog2 x = (if 2 powi d \<le> x then d else d - 1)"
    by (simp add: ilog2_def q d_def Let_def)
  show "2 powi ilog2 x \<le> x" using lo by (simp add: i)
  show "x < 2 powi (ilog2 x + 1)" using up by (auto simp: i not_le)
qed

lemma rne_error: "\<bar>of_int (rne q) - q\<bar> \<le> 1 / 2"
proof -
  have "of_int \<lfloor>q\<rfloor> \<le> q" "q < of_int \<lfloor>q\<rfloor> + 1" by linarith+
  then show ?thesis by (auto simp: rne_def Let_def)
qed

lemma rne_of_int: "rne (of_int n) = n"
  by (simp add: rne_def)

lemma rne_ge: "of_int n \<le> q \<Longrightarrow> n \<le> rne q"
proof -
  assume "of_int n \<le> q"
  then have "n \<le> \<lfloor>q\<rfloor>" by (simp add: le_floor_iff)
  then show ?thesis by (auto simp: rne_def Let_def)
qed

lemma rne_le: "q \<le> of_int n \<Longrightarrow> rne q \<le> n"
proof -
  assume h: "q \<le> of_int n"
  show ?thesis
  proof (cases "q = of_int n")
    case True
    then show ?thesis by (simp add: rne_of_int)
  next
    case False
    with h have "q < of_int n" by simp
    then have "\<lfloor>q\<rfloor> < n" by (simp add: floor_less_iff)
    then show ?thesis by (auto simp: rne_def Let_def)
  qed
qed

text \<open>The scaled magnitude lies in the range of 53-bit integers.\<close>

lemma scaled_range:
  assumes "0 < a"
  defines "q \<equiv> a / 2 powi (ilog2 a - 52)"
  shows "2 ^ 52 \<le> q" and "q < 2 ^ 53"
proof -
  have p: "(0::rat) < 2 powi (ilog2 a - 52)" by simp
  have "2 powi ilog2 a = (2::rat) ^ 52 * 2 powi (ilog2 a - 52)"
    using two_powi_add[of 52 "ilog2 a - 52"] by simp
  with ilog2_bounds(1)[OF assms(1)] have "2 ^ 52 * 2 powi (ilog2 a - 52) \<le> a" by simp
  then show "2 ^ 52 \<le> q" unfolding q_def using p by (simp add: pos_le_divide_eq)
  have "2 powi (ilog2 a + 1) = (2::rat) ^ 53 * 2 powi (ilog2 a - 52)"
    using two_powi_add[of 53 "ilog2 a - 52"] by (simp add: add.commute)
  with ilog2_bounds(2)[OF assms(1)] have "a < 2 ^ 53 * 2 powi (ilog2 a - 52)" by simp
  then show "q < 2 ^ 53" unfolding q_def using p by (simp add: pos_divide_less_eq)
qed

lemma fl_nonzero:
  assumes "x \<noteq> 0"
  shows "fl x = sgn x * of_int (rne (\<bar>x\<bar> / 2 powi (ilog2 \<bar>x\<bar> - 52))) * 2 powi (ilog2 \<bar>x\<bar> - 52)"
  using assms by (simp add: fl_def Let_def)

lemma fl_0: "fl 0 = 0"
  by (simp add: fl_def)

lemma fl_minus: "fl (- x) = - fl x"
  by (cases "x = 0") (simp_all add: fl_0 fl_nonzero sgn_minus)

lemma fl_error: "\<bar>fl x - x\<bar> \<le> \<bar>x\<bar> / 2 ^ 53"
proof (cases "x = 0")
  case True
  then show ?thesis by (simp add: fl_0)
next
  case False
  define a where "a = \<bar>x\<bar>"
  define e where "e = ilog2 a - 52"
  define q where "q = a / 2 powi e"
  define m where "m = rne q"
  have a: "0 < a" using False by (simp add: a_def)
  have p: "(0::rat) < 2 powi e" by simp
  have f: "fl x = sgn x * of_int m * 2 powi e"
    unfolding m_def q_def e_def a_def by (rule fl_nonzero[OF False])
  have xa: "x = sgn x * (q * 2 powi e)"
    unfolding q_def a_def by (simp add: sgn_mult_abs)
  have "fl x - x = sgn x * ((of_int m - q) * 2 powi e)"
    unfolding f by (subst (2) xa) (simp add: algebra_simps)
  then have "\<bar>fl x - x\<bar> = \<bar>of_int m - q\<bar> * 2 powi e"
    using False by (simp add: abs_mult abs_sgn_eq)
  also have "\<dots> \<le> 1 / 2 * 2 powi e"
    unfolding m_def using rne_error[of q] by (intro mult_right_mono) simp_all
  also have "\<dots> \<le> a / 2 ^ 53"
  proof -
    from scaled_range(1)[OF a] have "2 ^ 52 \<le> q" unfolding q_def e_def .
    then have "2 ^ 52 * 2 powi e \<le> a" unfolding q_def using p by (simp add: pos_le_divide_eq)
    then show ?thesis by simp
  qed
  finally show ?thesis unfolding a_def .
qed

lemma fl_pos: "0 < x \<Longrightarrow> 0 < fl x"
proof -
  assume x: "0 < x"
  then have n: "x \<noteq> 0" by simp
  from scaled_range(1)[of "\<bar>x\<bar>"] x have "2 ^ 52 \<le> \<bar>x\<bar> / 2 powi (ilog2 \<bar>x\<bar> - 52)" by simp
  then have "(2 ^ 52 :: int) \<le> rne (\<bar>x\<bar> / 2 powi (ilog2 \<bar>x\<bar> - 52))"
    by (intro rne_ge) simp
  then have "(0::rat) < of_int (rne (\<bar>x\<bar> / 2 powi (ilog2 \<bar>x\<bar> - 52)))" by simp
  then show ?thesis using x unfolding fl_nonzero[OF n] by (simp add: zero_less_mult_iff)
qed

lemma fl_eq_0_iff: "fl x = 0 \<longleftrightarrow> x = 0"
proof
  assume z: "fl x = 0"
  show "x = 0"
  proof (rule ccontr)
    assume n: "x \<noteq> 0"
    show False
    proof (cases "0 < x")
      case True
      from fl_pos[OF this] z show False by simp
    next
      case False
      with n have "0 < - x" by simp
      from fl_pos[OF this] z show False by (simp add: fl_minus)
    qed
  qed
qed (simp add: fl_0)

lemma fl_exact:
  assumes "\<bar>m\<bar> < 2 ^ 53"
  shows "fl (of_int m * 2 powi j) = of_int m * 2 powi j"
proof (cases "m = 0")
  case True
  then show ?thesis by (simp add: fl_0)
next
  case False
  define x :: rat where "x = of_int m * 2 powi j"
  define a where "a = \<bar>x\<bar>"
  define e where "e = ilog2 a - 52"
  have xn: "x \<noteq> 0" using False by (simp add: x_def)
  have a: "0 < a" using xn by (simp add: a_def)
  have am: "a = of_int \<bar>m\<bar> * 2 powi j" by (simp add: a_def x_def abs_mult)
  have "(of_int \<bar>m\<bar> :: rat) < of_int (2 ^ 53)" using assms by (simp only: of_int_less_iff)
  then have "a < 2 ^ 53 * 2 powi j" unfolding am by (simp add: mult_strict_right_mono)
  also have "\<dots> = 2 powi (53 + j)" using two_powi_add[of 53 j] by simp
  finally have "2 powi ilog2 a < (2::rat) powi (53 + j)"
    using ilog2_bounds(1)[OF a] by simp
  then have "ilog2 a < 53 + j" by (simp only: two_powi_less)
  then have ej: "0 \<le> j - e" unfolding e_def by simp
  have "2 powi j = (2::rat) powi (j - e) * 2 powi e" using two_powi_add[of "j - e" e] by simp
  then have "a / 2 powi e = of_int \<bar>m\<bar> * 2 powi (j - e)" unfolding am by simp
  also have "\<dots> = of_int (\<bar>m\<bar> * 2 ^ nat (j - e))" using ej by (simp add: power_int_nonneg_exp)
  finally have q: "a / 2 powi e = of_int (\<bar>m\<bar> * 2 ^ nat (j - e))" .
  have "fl x = sgn x * of_int (rne (a / 2 powi e)) * 2 powi e"
    unfolding a_def e_def by (rule fl_nonzero[OF xn])
  also have "\<dots> = sgn x * (a / 2 powi e) * 2 powi e" unfolding q rne_of_int ..
  also have "\<dots> = x" unfolding a_def by (simp add: sgn_mult_abs)
  finally show ?thesis unfolding x_def .
qed

lemma fl_of_int: "\<bar>m\<bar> < 2 ^ 53 \<Longrightarrow> fl (of_int m) = of_int m"
  using fl_exact[of m 0] by simp

lemma fl_upper:
  assumes "0 \<le> x"
  shows "fl x \<le> x + x / 2 ^ 53"
proof -
  have "\<bar>fl x - x\<bar> \<le> x / 2 ^ 53" using fl_error[of x] assms by (simp only: abs_of_nonneg)
  then show ?thesis by linarith
qed

lemma fl_lower:
  assumes "0 \<le> x"
  shows "x - x / 2 ^ 53 \<le> fl x"
proof -
  have "\<bar>fl x - x\<bar> \<le> x / 2 ^ 53" using fl_error[of x] assms by (simp only: abs_of_nonneg)
  then show ?thesis by linarith
qed

lemma fl_ratio_le_one:
  fixes p q :: int
  assumes "0 < p" and "p \<le> q" and "q \<le> 2 ^ 53"
  shows "fl (of_int p / of_int q) \<le> 1"
proof (cases "p = q")
  case True
  then show ?thesis using assms(1) fl_of_int[of 1] by simp
next
  case False
  define x :: rat where "x = of_int p / of_int q"
  have q: "(0::rat) < of_int q" using assms(1,2) by simp
  have "p + 1 \<le> q" using False assms(2) by simp
  then have "(of_int (p + 1) :: rat) \<le> of_int q" by (simp only: of_int_le_iff)
  then have pq: "(of_int p :: rat) \<le> of_int q - 1" by simp
  have "(of_int q :: rat) \<le> of_int (2 ^ 53)" using assms(3) by (simp only: of_int_le_iff)
  then have qb: "(of_int q :: rat) \<le> 2 ^ 53" by simp
  have x0: "0 \<le> x" using assms(1) q by (simp add: x_def)
  have "x * of_int q \<le> of_int q - 1" using pq q by (simp add: x_def)
  moreover have "x \<le> 1" using pq q by (simp add: x_def)
  ultimately have "x * 2 ^ 53 + x \<le> 2 ^ 53"
  proof -
    assume a: "x * of_int q \<le> of_int q - 1" and b: "x \<le> 1"
    have "(1 - x) * of_int q \<ge> 1" using a by (simp add: algebra_simps)
    moreover have "(1 - x) * of_int q \<le> (1 - x) * 2 ^ 53"
      using qb b by (intro mult_left_mono) simp_all
    ultimately have "1 \<le> (1 - x) * 2 ^ 53" by linarith
    then show ?thesis using b by (simp add: algebra_simps)
  qed
  then have "x + x / 2 ^ 53 \<le> 1" by (simp add: field_simps)
  with fl_upper[OF x0] show ?thesis unfolding x_def by linarith
qed

lemma fl_ratio_gt_one:
  fixes p q :: int
  assumes "0 < q" and "q < p" and "q + 1 < 2 ^ 53"
  shows "1 < fl (of_int p / of_int q)"
proof -
  define x :: rat where "x = of_int p / of_int q"
  have q: "(0::rat) < of_int q" using assms(1) by simp
  have "q + 1 \<le> p" using assms(2) by simp
  then have "(of_int (q + 1) :: rat) \<le> of_int p" by (simp only: of_int_le_iff)
  then have pq: "(of_int q :: rat) + 1 \<le> of_int p" by simp
  have "(of_int (q + 1) :: rat) < of_int (2 ^ 53)" using assms(3) by (simp only: of_int_less_iff)
  then have qb: "(of_int q :: rat) + 1 < 2 ^ 53" by simp
  have x1: "of_int q + 1 \<le> x * of_int q" using pq q by (simp add: x_def)
  have x0: "0 \<le> x" using assms(1,2) by (simp add: x_def)
  have xg: "1 < x" using pq q by (simp add: x_def)
  have "(x - 1) * of_int q \<ge> 1" using x1 by (simp add: algebra_simps)
  moreover have "(x - 1) * of_int q < (x - 1) * (2 ^ 53 - 1)"
    using qb xg by (intro mult_strict_left_mono) simp_all
  ultimately have "1 < (x - 1) * (2 ^ 53 - 1)" by linarith
  then have "2 ^ 53 < x * 2 ^ 53 - x" using xg by (simp add: algebra_simps)
  then have "1 < x - x / 2 ^ 53" by (simp add: field_simps)
  with fl_lower[OF x0] show ?thesis unfolding x_def by linarith
qed

lemma fl_separate:
  assumes "0 < y" and "y < z" and "z + y < (z - y) * 2 ^ 53"
  shows "fl y \<noteq> fl z"
proof
  assume e: "fl y = fl z"
  have y0: "0 \<le> y" and z0: "0 \<le> z" using assms(1,2) by simp_all
  have "\<bar>fl y - y\<bar> \<le> y / 2 ^ 53" using fl_error[of y] y0 by (simp only: abs_of_nonneg)
  moreover have "\<bar>fl y - z\<bar> \<le> z / 2 ^ 53"
    using fl_error[of z] z0 unfolding e by (simp only: abs_of_nonneg)
  moreover have "(z + y) / 2 ^ 53 = z / 2 ^ 53 + y / (2 ^ 53 :: rat)" by (rule add_divide_distrib)
  ultimately have "z - y \<le> (z + y) / 2 ^ 53" by linarith
  then have "(z - y) * 2 ^ 53 \<le> z + y" by (simp add: field_simps)
  with assms(3) show False by simp
qed

lemma SIZES_cases:
  assumes "s \<in> set SIZES"
  shows "s = 1024 \<or> s = 512 \<or> s = 256 \<or> s = 128 \<or> s = 64 \<or> s = 32"
  using assms by (simp add: SIZES_def)

lemma SIZES_bounds:
  assumes "s \<in> set SIZES"
  shows "32 \<le> s" and "s \<le> 1024"
  using SIZES_cases[OF assms] by auto

lemma fl_div_size:
  assumes "s \<in> set SIZES" and "\<bar>n\<bar> < 2 ^ 53"
  shows "fl (of_int n / of_int s) = of_int n / of_int s"
proof -
  have "\<exists>j. (of_int s :: rat) = 2 powi j"
  proof -
    have "(1024::rat) = 2 powi 10" "(512::rat) = 2 powi 9" "(256::rat) = 2 powi 8"
      "(128::rat) = 2 powi 7" "(64::rat) = 2 powi 6" "(32::rat) = 2 powi 5" by simp_all
    then show ?thesis using SIZES_cases[OF assms(1)] by (metis of_int_numeral)
  qed
  then obtain j where j: "(of_int s :: rat) = 2 powi j" ..
  have "of_int n / (2::rat) powi j = of_int n * 2 powi (- j)"
    by (simp add: power_int_minus divide_inverse)
  then show ?thesis unfolding j using fl_exact[OF assms(2), of "- j"] by simp
qed

lemma fl_size:
  assumes "s \<in> set SIZES"
  shows "fl (of_int s) = of_int s"
proof -
  have "\<bar>s\<bar> < 2 ^ 53" using SIZES_bounds[OF assms] by simp
  then show ?thesis by (rule fl_of_int)
qed

lemma round_aspect_exact:
  fixes p d :: int
  assumes d: "0 < d" and p: "0 < p"
    and near: "\<bar>number - of_int p / of_int d\<bar> < 1 / of_int d"
    and key0: "\<And>n. 0 \<le> key n"
    and keyk: "\<And>k. p = k * d \<Longrightarrow> key k = 0 \<and> (2 \<le> k \<longrightarrow> 0 < key (k - 1))"
  shows "1 \<le> round_aspect number key"
    and "\<bar>of_int (round_aspect number key) - (of_int p :: rat) / of_int d\<bar> < 1"
proof -
  show "1 \<le> round_aspect number key" by (simp add: round_aspect_def)
  have dr: "(0::rat) < of_int d" using d by simp
  have d1: "1 / (of_int d :: rat) \<le> 1" using d by simp
  show "\<bar>of_int (round_aspect number key) - (of_int p :: rat) / of_int d\<bar> < 1"
  proof (cases "d dvd p")
    case True
    then obtain k where k: "p = k * d" by (auto simp: dvd_def mult.commute)
    have e: "(of_int p :: rat) / of_int d = of_int k" using dr by (simp add: k)
    have k1: "1 \<le> k" using p d k by (simp add: zero_less_mult_iff)
    from near d1 have nk: "of_int k - 1 < number" "number < of_int k + 1"
      unfolding e by linarith+
    from keyk[OF k] have kk: "key k = 0" "2 \<le> k \<Longrightarrow> 0 < key (k - 1)" by blast+
    have "round_aspect number key = k"
    proof (cases "number = of_int k")
      case True
      then show ?thesis using k1 by (simp add: round_aspect_def)
    next
      case False
      show ?thesis
      proof (cases "number < of_int k")
        case True
        have f: "\<lfloor>number\<rfloor> = k - 1" using True nk(1) by (simp add: floor_unique)
        have c: "\<lceil>number\<rceil> = k" using True nk(1) by (simp add: ceiling_unique)
        show ?thesis
        proof (cases "2 \<le> k")
          case True
          then show ?thesis using kk by (simp add: round_aspect_def f c)
        next
          case False
          with k1 have "k = 1" by simp
          then show ?thesis by (simp add: round_aspect_def f c)
        qed
      next
        case nl: False
        with False have g: "of_int k < number" by simp
        have f: "\<lfloor>number\<rfloor> = k" using g nk(2) by (simp add: floor_unique)
        have c: "\<lceil>number\<rceil> = k + 1" using g nk(2) by (simp add: ceiling_unique)
        have "\<not> key (k + 1) < key k" using key0[of "k + 1"] kk(1) by simp
        then show ?thesis using k1 by (simp add: round_aspect_def f c)
      qed
    qed
    then show ?thesis unfolding e by simp
  next
    case False
    define f where "f = p div d"
    define m where "m = p mod d"
    have m: "1 \<le> m" "m \<le> d - 1"
      using False d unfolding m_def
      by (metis add_0 dvd_eq_mod_eq_0 int_one_le_iff_zero_less le_less pos_mod_sign zless_imp_add1_zle,
          metis add.commute add_le_cancel_right diff_add_cancel pos_mod_bound zless_imp_add1_zle)
    have pf: "p = f * d + m" unfolding f_def m_def by simp
    have f0: "0 \<le> f" unfolding f_def using p d by (simp add: pos_imp_zdiv_nonneg_iff)
    have e: "(of_int p :: rat) / of_int d = of_int f + of_int m / of_int d"
      using dr by (simp add: pf add_divide_distrib)
    have mr: "1 / (of_int d :: rat) \<le> of_int m / of_int d"
      "of_int m / (of_int d :: rat) \<le> 1 - 1 / of_int d"
    proof -
      have "(of_int 1 :: rat) \<le> of_int m" using m(1) by (simp only: of_int_le_iff)
      then show "1 / (of_int d :: rat) \<le> of_int m / of_int d"
        using dr by (simp add: divide_right_mono)
      have "(of_int m :: rat) \<le> of_int (d - 1)" using m(2) by (simp only: of_int_le_iff)
      then have "of_int m / (of_int d :: rat) \<le> (of_int d - 1) / of_int d"
        using dr by (simp add: divide_right_mono)
      then show "of_int m / (of_int d :: rat) \<le> 1 - 1 / of_int d"
        using dr by (simp add: diff_divide_distrib)
    qed
    have lo: "of_int f < number" using near mr(1) unfolding e by linarith
    have hi: "number < of_int f + 1" using near mr(2) unfolding e by linarith
    have fl: "\<lfloor>number\<rfloor> = f" using lo hi by (simp add: floor_unique)
    have ce: "\<lceil>number\<rceil> = f + 1" using lo hi by (simp add: ceiling_unique)
    have "round_aspect number key = f \<and> 1 \<le> f \<or> round_aspect number key = f + 1"
      using f0 by (auto simp: round_aspect_def fl ce max_def)
    moreover have "0 < of_int m / (of_int d :: rat)" "of_int m / (of_int d :: rat) < 1"
    proof -
      have "0 < 1 / (of_int d :: rat)" using dr by simp
      then show "0 < of_int m / (of_int d :: rat)" "of_int m / (of_int d :: rat) < 1"
        using mr by linarith+
    qed
    ultimately show ?thesis unfolding e by auto
  qed
qed

section \<open>The size computed by \<^verbatim>\<open>thumbnail\<close>\<close>

lemma scaled_within_one:
  fixes a s p q :: int
  assumes "0 < q" and "\<bar>(of_int a :: rat) - of_int s * of_int p / of_int q\<bar> < 1"
  shows "\<bar>a * q - s * p\<bar> < q"
proof -
  have q: "(0::rat) < of_int q" using assms(1) by simp
  have "\<bar>(of_int a :: rat) - of_int s * of_int p / of_int q\<bar> * of_int q < 1 * of_int q"
    using assms(2) q by (rule mult_strict_right_mono)
  moreover have "\<bar>(of_int a :: rat) - of_int s * of_int p / of_int q\<bar> * of_int q
      = \<bar>of_int (a * q - s * p)\<bar>"
    using q by (simp add: abs_mult[symmetric] abs_of_pos[symmetric] field_simps)
  ultimately have "\<bar>(of_int (a * q - s * p)) :: rat\<bar> < of_int q" by simp
  then show ?thesis by (metis of_int_abs of_int_less_iff)
qed

lemma scaled_le:
  fixes r s p q :: int
  assumes q: "0 < q" and p: "0 < p" and pq: "p \<le> q" and s: "0 \<le> s" and sq: "s < q"
    and near: "\<bar>r * q - s * p\<bar> < q"
  shows "r \<le> s" and "r \<le> p"
proof -
  have "s * p \<le> s * q" using pq s by (rule mult_left_mono)
  then have "r * q < (s + 1) * q" using near by (simp add: algebra_simps)
  then have "r < s + 1" using q by (simp add: mult_less_cancel_right)
  then show "r \<le> s" by simp
  have "s + 1 \<le> q" using sq by simp
  then have "(s + 1) * p \<le> q * p" using p by (intro mult_right_mono) simp_all
  then have "s * p \<le> p * q - p" by (simp add: algebra_simps)
  then have "r * q < (p + 1) * q" using near p by (simp add: algebra_simps)
  then have "r < p + 1" using q by (simp add: mult_less_cancel_right)
  then show "r \<le> p" by simp
qed

lemma fl_one: "fl 1 = 1"
  using fl_of_int[of 1] by simp

lemma small_error:
  fixes n :: int and e s :: rat
  assumes "0 < n" and "n < 2 ^ 31" and "e \<le> 2 * s / 2 ^ 53" and "s \<le> 1024"
  shows "e < 1 / of_int n"
proof -
  have "(of_int n :: rat) < of_int (2 ^ 31)" using assms(2) by (simp only: of_int_less_iff)
  then have n: "(of_int n :: rat) < 2 ^ 31" by simp
  have n0: "(0 :: rat) < of_int n" using assms(1) by simp
  have "1 / (2 ^ 31 :: rat) < 1 / of_int n" using n n0 by (simp add: field_simps)
  moreover have "e \<le> 2 * 1024 / 2 ^ 53" using assms(3,4) by simp
  ultimately show ?thesis by simp
qed

lemma preserve_aspect_ratio_tall:
  assumes W: "0 < im_width im" and WH: "im_width im \<le> im_height im"
    and s: "s \<in> set SIZES" and big: "s < im_height im" and Hb: "im_height im < 2 ^ 31"
  shows "\<exists>w'. preserve_aspect_ratio (s, s) im = Inr (Some (w', s)) \<and> 1 \<le> w' \<and> w' \<le> s
           \<and> w' \<le> im_width im \<and> \<bar>w' * im_height im - s * im_width im\<bar> < im_height im"
proof -
  define W H where "W = im_width im" and "H = im_height im"
  have H: "0 < H" and WH': "W \<le> H" and W': "0 < W" and big': "s < H" and Hb': "H < 2 ^ 31"
    using W WH big Hb by (simp_all add: W_def H_def)
  define x :: rat where "x = of_int W / of_int H"
  define a where "a = fl x"
  define number where "number = fl (of_int s * a)"
  define key where "key = (\<lambda>n::int. \<bar>fl (a - fl (of_int n / of_int s))\<bar>)"
  define w' where "w' = round_aspect number key"
  have sb: "32 \<le> s" "s \<le> 1024" using SIZES_bounds[OF s] .
  have sr: "(0::rat) < of_int s" "(of_int s :: rat) \<le> 1024"
  proof -
    show "(0::rat) < of_int s" using sb by simp
    have "(of_int s :: rat) \<le> of_int 1024" using sb(2) by (simp only: of_int_le_iff)
    then show "(of_int s :: rat) \<le> 1024" by simp
  qed
  have Hr: "(0::rat) < of_int H" using H by simp
  have x0: "0 < x" using W' H by (simp add: x_def)
  have x1: "x \<le> 1" using WH' H by (simp add: x_def)
  have a1: "a \<le> 1" unfolding a_def x_def using W' WH' Hb' by (intro fl_ratio_le_one) simp_all
  have a0: "0 < a" unfolding a_def using x0 by (rule fl_pos)
  have ss: "fl (of_int s / of_int s) = 1" using sr by (simp add: fl_one)
  have fs: "fl (of_int s) = of_int s" using s by (rule fl_size)
  have eq: "preserve_aspect_ratio (s, s) im = Inr (Some (w', s))"
    using H sb a1 a0 big'
    by (simp add: preserve_aspect_ratio_def Let_def W_def[symmetric] H_def[symmetric]
        x_def[symmetric] a_def[symmetric] ss fl_one fs number_def[symmetric] key_def[symmetric] w'_def)
  have near: "\<bar>number - of_int (s * W) / of_int H\<bar> < 1 / of_int H"
  proof -
    have e1: "\<bar>a - x\<bar> \<le> x / 2 ^ 53"
      using fl_error[of x] x0 unfolding a_def by (simp only: abs_of_pos)
    have sa0: "0 \<le> of_int s * a" using sr a0 by simp
    have sa1: "of_int s * a \<le> of_int s" using sr a1 by simp
    have "\<bar>number - of_int s * a\<bar> \<le> (of_int s * a) / 2 ^ 53"
      using fl_error[of "of_int s * a"] sa0 unfolding number_def by (simp only: abs_of_nonneg)
    then have e2: "\<bar>number - of_int s * a\<bar> \<le> of_int s / 2 ^ 53"
      using sa1 by (simp add: field_simps)
    have "\<bar>of_int s * a - of_int s * x\<bar> = of_int s * \<bar>a - x\<bar>"
      using sr by (simp add: abs_mult right_diff_distrib[symmetric])
    also have "\<dots> \<le> of_int s * (x / 2 ^ 53)" using e1 sr by (intro mult_left_mono) simp_all
    also have "\<dots> \<le> of_int s * (1 / 2 ^ 53)" using x1 sr by (intro mult_left_mono) simp_all
    finally have e3: "\<bar>of_int s * a - of_int s * x\<bar> \<le> of_int s / 2 ^ 53" by simp
    have t: "of_int (s * W) / of_int H = of_int s * x" by (simp add: x_def)
    have u: "2 * (of_int s :: rat) / 2 ^ 53 = of_int s / 2 ^ 53 + of_int s / 2 ^ 53" by simp
    have fin: "\<bar>number - of_int (s * W) / of_int H\<bar> \<le> 2 * of_int s / 2 ^ 53"
      unfolding t u using e2 e3 by linarith
    show ?thesis using H Hb' fin sr(2) by (rule small_error)
  qed
  have key0: "\<And>n. 0 \<le> key n" by (simp add: key_def)
  have keyk: "key k = 0 \<and> (2 \<le> k \<longrightarrow> 0 < key (k - 1))" if k: "s * W = k * H" for k
  proof -
    have "(of_int (s * W) :: rat) = of_int (k * H)" using k by simp
    then have xk: "x = of_int k / of_int s" using Hr sr by (simp add: x_def field_simps)
    have "0 < s * W" using W' sb by simp
    then have "0 < k * H" unfolding k .
    then have k0: "0 < k" using H by (simp add: zero_less_mult_iff)
    have "s * W \<le> s * H" using WH' sb by (intro mult_left_mono) simp_all
    then have "k * H \<le> s * H" unfolding k .
    then have ks: "k \<le> s" using H by (simp add: mult_le_cancel_right)
    have "\<bar>k\<bar> < 2 ^ 53" using k0 ks sb by simp
    then have ak: "a = of_int k / of_int s" unfolding a_def xk using s by (intro fl_div_size)
    have "\<bar>k - 1\<bar> < 2 ^ 53" using k0 ks sb by simp
    then have f1: "fl (of_int (k - 1) / of_int s) = of_int (k - 1) / of_int s"
      using s by (intro fl_div_size)
    have "key k = 0" unfolding key_def a_def[symmetric] xk[symmetric] by (simp add: a_def fl_0)
    moreover have "0 < key (k - 1)"
    proof -
      have "a - of_int (k - 1) / of_int s = 1 / of_int s"
        unfolding ak using sr by (simp add: field_simps)
      then have "a - fl (of_int (k - 1) / of_int s) \<noteq> 0" using sr unfolding f1 by simp
      then show ?thesis unfolding key_def by (simp add: fl_eq_0_iff)
    qed
    ultimately show ?thesis by simp
  qed
  have sW: "0 < s * W" using sb W' by simp
  from round_aspect_exact[OF H sW near key0 keyk]
  have b: "1 \<le> w'" "\<bar>of_int w' - (of_int (s * W) :: rat) / of_int H\<bar> < 1"
    unfolding w'_def by blast+
  have "\<bar>(of_int w' :: rat) - of_int s * of_int W / of_int H\<bar> < 1" using b(2) by simp
  with H have n: "\<bar>w' * H - s * W\<bar> < H" by (rule scaled_within_one)
  have s0: "0 \<le> s" using sb by simp
  from scaled_le[OF H W' WH' s0 big' n] have "w' \<le> s" "w' \<le> W" .
  then show ?thesis using eq b(1) n unfolding W_def H_def by blast
qed

lemma preserve_aspect_ratio_wide:
  assumes H: "0 < im_height im" and WH: "im_height im < im_width im"
    and s: "s \<in> set SIZES" and big: "s < im_width im" and Wb: "im_width im < 2 ^ 31"
  shows "\<exists>h'. preserve_aspect_ratio (s, s) im = Inr (Some (s, h')) \<and> 1 \<le> h' \<and> h' \<le> s
           \<and> h' \<le> im_height im \<and> \<bar>h' * im_width im - s * im_height im\<bar> < im_width im"
proof -
  define W H where "W = im_width im" and "H = im_height im"
  have H': "0 < H" and WH': "H < W" and W': "0 < W" and big': "s < W" and Wb': "W < 2 ^ 31"
    using H WH big Wb by (simp_all add: W_def H_def)
  define x :: rat where "x = of_int W / of_int H"
  define a where "a = fl x"
  define number where "number = fl (of_int s / a)"
  define key where "key = (\<lambda>n::int. if n = 0 then 0 else \<bar>fl (a - fl (of_int s / of_int n))\<bar>)"
  define h' where "h' = round_aspect number key"
  have sb: "32 \<le> s" "s \<le> 1024" using SIZES_bounds[OF s] .
  have sr: "(0::rat) < of_int s" "(of_int s :: rat) \<le> 1024"
  proof -
    show "(0::rat) < of_int s" using sb by simp
    have "(of_int s :: rat) \<le> of_int 1024" using sb(2) by (simp only: of_int_le_iff)
    then show "(of_int s :: rat) \<le> 1024" by simp
  qed
  have Hr: "(0::rat) < of_int H" using H' by simp
  have Wr: "(0::rat) < of_int W" using W' by simp
  have x1: "1 < x" using WH' H' by (simp add: x_def)
  have x0: "0 < x" using x1 by simp
  have a1: "1 < a" unfolding a_def x_def using H' WH' Wb' by (intro fl_ratio_gt_one) simp_all
  have a0: "0 < a" using a1 by simp
  have ss: "fl (of_int s / of_int s) = 1" using sr by (simp add: fl_one)
  have fs: "fl (of_int s) = of_int s" using s by (rule fl_size)
  have eq: "preserve_aspect_ratio (s, s) im = Inr (Some (s, h'))"
    using H' sb a1 big'
    by (simp add: preserve_aspect_ratio_def Let_def W_def[symmetric] H_def[symmetric]
        x_def[symmetric] a_def[symmetric] ss fl_one fs number_def[symmetric] key_def[symmetric] h'_def)
  have near: "\<bar>number - of_int (s * H) / of_int W\<bar> < 1 / of_int W"
  proof -
    have e1: "\<bar>a - x\<bar> \<le> x / 2 ^ 53"
      using fl_error[of x] x0 unfolding a_def by (simp only: abs_of_pos)
    have sa0: "0 \<le> of_int s / a" using sr a0 by simp
    have sa1: "of_int s / a \<le> of_int s" using sr a1 by (simp add: field_simps)
    have "\<bar>number - of_int s / a\<bar> \<le> (of_int s / a) / 2 ^ 53"
      using fl_error[of "of_int s / a"] sa0 unfolding number_def by (simp only: abs_of_nonneg)
    then have e2: "\<bar>number - of_int s / a\<bar> \<le> of_int s / 2 ^ 53"
      using sa1 by (simp add: field_simps)
    define d where "d = of_int s / a - of_int s / x"
    have ax: "0 < a * x" using a0 x0 by simp
    have "d * (a * x) = of_int s * (x - a)" using a0 x0 by (simp add: d_def field_simps)
    then have "\<bar>d\<bar> * (a * x) = of_int s * \<bar>x - a\<bar>"
      using ax sr by (metis abs_mult abs_of_pos)
    also have "\<dots> \<le> of_int s * (x / 2 ^ 53)"
      using e1 sr by (intro mult_left_mono) (simp_all add: abs_minus_commute)
    finally have "\<bar>d\<bar> * (a * x) \<le> (of_int s / 2 ^ 53) * x" by simp
    moreover have "\<bar>d\<bar> * x * 1 \<le> \<bar>d\<bar> * x * a"
      using a1 x0 by (intro mult_left_mono) simp_all
    ultimately have "\<bar>d\<bar> * x \<le> (of_int s / 2 ^ 53) * x" by (simp add: mult.assoc mult.commute[of a x])
    then have e3: "\<bar>d\<bar> \<le> of_int s / 2 ^ 53" using x0 by (simp only: mult_le_cancel_right_pos)
    have t: "of_int (s * H) / of_int W = of_int s / x" using Hr Wr by (simp add: x_def)
    have u: "2 * (of_int s :: rat) / 2 ^ 53 = of_int s / 2 ^ 53 + of_int s / 2 ^ 53" by simp
    have fin: "\<bar>number - of_int (s * H) / of_int W\<bar> \<le> 2 * of_int s / 2 ^ 53"
      unfolding t u using e2 e3 unfolding d_def by linarith
    show ?thesis using W' Wb' fin sr(2) by (rule small_error)
  qed
  have key0: "\<And>n. 0 \<le> key n" by (simp add: key_def)
  have keyk: "key k = 0 \<and> (2 \<le> k \<longrightarrow> 0 < key (k - 1))" if k: "s * H = k * W" for k
  proof -
    have "0 < s * H" using H' sb by simp
    then have "0 < k * W" unfolding k .
    then have k0: "0 < k" using W' by (simp add: zero_less_mult_iff)
    have kr: "(0::rat) < of_int k" using k0 by simp
    have "(of_int (s * H) :: rat) = of_int (k * W)" using k by simp
    then have xk: "x = of_int s / of_int k" using Hr Wr kr by (simp add: x_def field_simps)
    have "s * H < s * W" using WH' sb by simp
    then have "k * W < s * W" using k by simp
    then have ks: "k < s" using W' by (simp add: mult_less_cancel_right)
    have "key k = 0" using k0 unfolding key_def a_def xk by (simp add: fl_0)
    moreover have "0 < key (k - 1)" if k2: "2 \<le> k"
    proof -
      define y z :: rat where "y = of_int s / of_int k" and "z = of_int s / of_int (k - 1)"
      have k1: "(0::rat) < of_int (k - 1)" using k2 by simp
      have kk: "(0::rat) < of_int k * of_int (k - 1)" using kr k1 by simp
      have y0: "0 < y" using sr kr by (simp add: y_def)
      have "(of_int (k - 1) :: rat) < of_int k" by simp
      then have yz: "y < z" unfolding y_def z_def using sr kr k1 by (simp add: frac_less2)
      have zd: "z - y = of_int s / (of_int k * of_int (k - 1))"
        using kr k1 unfolding y_def z_def by (simp add: field_simps)
      have zs: "z + y = of_int s * of_int (2 * k - 1) / (of_int k * of_int (k - 1))"
        using kr k1 unfolding y_def z_def by (simp add: field_simps)
      have "(of_int (2 * k - 1) :: rat) < of_int (2 ^ 53)"
        using ks sb by (simp only: of_int_less_iff) simp
      then have "(of_int (2 * k - 1) :: rat) < 2 ^ 53" by simp
      then have "of_int s * of_int (2 * k - 1) < of_int s * (2 ^ 53 :: rat)"
        using sr by (intro mult_strict_left_mono) simp_all
      then have "of_int s * of_int (2 * k - 1) / (of_int k * of_int (k - 1))
          < of_int s * (2 ^ 53 :: rat) / (of_int k * of_int (k - 1))"
        using kk by (rule divide_strict_right_mono)
      then have "z + y < (z - y) * 2 ^ 53" unfolding zd zs by simp
      from fl_separate[OF y0 yz this] have "a \<noteq> fl (of_int s / of_int (k - 1))"
        unfolding a_def xk y_def z_def .
      then have "fl (a - fl (of_int s / of_int (k - 1))) \<noteq> 0" by (simp add: fl_eq_0_iff)
      then show ?thesis using k2 unfolding key_def by simp
    qed
    ultimately show ?thesis by simp
  qed
  have sH: "0 < s * H" using sb H' by simp
  from round_aspect_exact[OF W' sH near key0 keyk]
  have b: "1 \<le> h'" "\<bar>of_int h' - (of_int (s * H) :: rat) / of_int W\<bar> < 1"
    unfolding h'_def by blast+
  have "\<bar>(of_int h' :: rat) - of_int s * of_int H / of_int W\<bar> < 1" using b(2) by simp
  with W' have n: "\<bar>h' * W - s * H\<bar> < W" by (rule scaled_within_one)
  have s0: "0 \<le> s" using sb by simp
  have HW: "H \<le> W" using WH' by simp
  from scaled_le[OF W' H' HW s0 big' n] have "h' \<le> s" "h' \<le> H" .
  then show ?thesis using eq b(1) n unfolding W_def H_def by blast
qed

lemma preserve_aspect_ratio_none:
  assumes "im_width im \<le> s" and "im_height im \<le> s"
  shows "preserve_aspect_ratio (s, s) im = Inr None"
  using assms by (simp add: preserve_aspect_ratio_def)

lemma exif_transpose_size:
  "im_size (exif_transpose img) =
     (if im_orientation img \<in> {5, 6, 7, 8} then (im_height img, im_width img)
      else (im_width img, im_height img))"
  by (simp add: exif_transpose_def im_size_def transpose_of_def swaps_axes_def)

lemma fit_source_size: "im_size (fit_source img) = im_size (exif_transpose img)"
  by (simp add: fit_source_def Let_def convert_def im_size_def)

lemma fit_source_mode: "im_mode (fit_source img) \<in> {''RGBA'', ''LA''}"
  by (simp add: fit_source_def Let_def convert_def)

lemma make_square_fit_unfold:
  "make_square_fit img s =
     (case thumbnail (fit_source img) (s, s) LANCZOS of
        Inl e \<Rightarrow> Inl e
      | Inr t \<Rightarrow>
          (case new ''RGBA'' (s, s) (0, 0, 0, 0) of
             Inl e \<Rightarrow> Inl e
           | Inr canvas \<Rightarrow>
               Inr (paste canvas t ((s - im_width t) div 2, (s - im_height t) div 2) t)))"
  by (simp add: make_square_fit_def fit_source_def Let_def split: sum.splits)

lemma thumbnail_square:
  assumes W: "0 < im_width im" and H: "0 < im_height im" and s: "s \<in> set SIZES"
    and Wb: "im_width im < 2 ^ 31" and Hb: "im_height im < 2 ^ 31"
    and m: "im_mode im \<notin> {''1'', ''P''}"
  shows "\<exists>t. thumbnail im (s, s) r = Inr t
      \<and> (im_width im \<le> s \<and> im_height im \<le> s \<longrightarrow> t = im)
      \<and> (s < im_width im \<or> s < im_height im \<longrightarrow>
            im_pixels t = Resized r (im_size t) (im_pixels im))
      \<and> (s < im_height im \<and> im_width im \<le> im_height im \<longrightarrow>
            im_height t = s \<and> \<bar>im_width t * im_height im - s * im_width im\<bar> < im_height im)
      \<and> (s < im_width im \<and> im_height im < im_width im \<longrightarrow>
            im_width t = s \<and> \<bar>im_height t * im_width im - s * im_height im\<bar> < im_width im)
      \<and> 1 \<le> im_width t \<and> im_width t \<le> s \<and> im_width t \<le> im_width im
      \<and> 1 \<le> im_height t \<and> im_height t \<le> s \<and> im_height t \<le> im_height im
      \<and> \<bar>im_width t * im_height im - im_height t * im_width im\<bar> < max (im_width im) (im_height im)"
proof (cases "im_width im \<le> s \<and> im_height im \<le> s")
  case True
  then have "thumbnail im (s, s) r = Inr im"
    by (simp add: thumbnail_def preserve_aspect_ratio_none)
  then show ?thesis using W H True by (auto simp: mult.commute)
next
  case False
  have s0: "0 < s" using SIZES_bounds[OF s] by simp
  show ?thesis
  proof (cases "im_width im \<le> im_height im")
    case True
    with False have big: "s < im_height im" by linarith
    from preserve_aspect_ratio_tall[OF W True s big Hb]
    obtain w' where p: "preserve_aspect_ratio (s, s) im = Inr (Some (w', s))"
      and b: "1 \<le> w'" "w' \<le> s" "w' \<le> im_width im"
        "\<bar>w' * im_height im - s * im_width im\<bar> < im_height im" by blast
    define t where "t = im\<lparr>im_width := w', im_height := s,
        im_pixels := Resized r (w', s) (im_pixels im)\<rparr>"
    have "thumbnail im (s, s) r = Inr t"
      using p b s0 big m by (auto simp: thumbnail_def resize_def im_size_def t_def)
    moreover have "im_width t = w'" "im_height t = s" "im_size t = (w', s)"
      "im_pixels t = Resized r (w', s) (im_pixels im)"
      by (simp_all add: t_def im_size_def)
    ultimately show ?thesis using b s0 big True by auto
  next
    case wide: False
    then have WH: "im_height im < im_width im" by simp
    with False have big: "s < im_width im" by linarith
    from preserve_aspect_ratio_wide[OF H WH s big Wb]
    obtain h' where p: "preserve_aspect_ratio (s, s) im = Inr (Some (s, h'))"
      and b: "1 \<le> h'" "h' \<le> s" "h' \<le> im_height im"
        "\<bar>h' * im_width im - s * im_height im\<bar> < im_width im" by blast
    have b': "\<bar>s * im_height im - h' * im_width im\<bar> < im_width im" using b(4) by linarith
    define t where "t = im\<lparr>im_width := s, im_height := h',
        im_pixels := Resized r (s, h') (im_pixels im)\<rparr>"
    have "thumbnail im (s, s) r = Inr t"
      using p b s0 big m by (auto simp: thumbnail_def resize_def im_size_def t_def)
    moreover have "im_width t = s" "im_height t = h'" "im_size t = (s, h')"
      "im_pixels t = Resized r (s, h') (im_pixels im)"
      by (simp_all add: t_def im_size_def)
    ultimately show ?thesis using b b' s0 big WH by auto
  qed
qed

section \<open>The two transforms\<close>

lemma exif_transpose_pos:
  assumes "0 < im_width img" and "0 < im_height img"
  shows "0 < im_width (exif_transpose img)" and "0 < im_height (exif_transpose img)"
  using assms by (simp_all add: exif_transpose_def split: option.splits)

lemma exif_transpose_bound:
  assumes "im_width img < b" and "im_height img < b"
  shows "im_width (exif_transpose img) < b" and "im_height (exif_transpose img) < b"
  using assms by (simp_all add: exif_transpose_def split: option.splits)

lemma centre_offset:
  fixes w side :: int
  assumes "side \<le> w"
  shows "0 \<le> (w - side) div 2" and "(w - side) div 2 + side \<le> w"
    and "(w - ((w - side) div 2 + side)) - (w - side) div 2 \<in> {0, 1}"
proof -
  show "0 \<le> (w - side) div 2" using assms by simp
  show "(w - side) div 2 + side \<le> w" using assms by presburger
  have "(w - ((w - side) div 2 + side)) - (w - side) div 2 = 0
      \<or> (w - ((w - side) div 2 + side)) - (w - side) div 2 = 1" by presburger
  then show "(w - ((w - side) div 2 + side)) - (w - side) div 2 \<in> {0, 1}" by simp
qed

text \<open>
  Claim C1. For a decoded image whose sides are positive and below \<open>2 ^ 31\<close> (the library
  holds sizes as C integers) and a target size \<open>s\<close> of \<open>SIZES\<close>, \<open>make_square_fit\<close> returns
  an RGBA image of exactly \<open>s \<times> s\<close>: a canvas filled with the transparent colour
  \<open>(0, 0, 0, 0)\<close>, onto which the thumbnail \<open>t\<close> of the orientation-normalised source is
  pasted at \<open>((s - w') div 2, (s - h') div 2)\<close>. The normalised source is \<open>W \<times> H\<close>, the
  sides of the file exchanged for the orientations 5 to 8. When both \<open>W\<close> and \<open>H\<close> are at
  most \<open>s\<close> the thumbnail is the source itself. Otherwise it is the resampling of the
  source with the filter LANCZOS, its longer side is exactly \<open>s\<close>, and its shorter side
  is within one pixel of the proportional value: \<open>\<bar>w' * H - s * W\<bar> < H\<close> when \<open>W \<le> H\<close>,
  \<open>\<bar>h' * W - s * H\<bar> < W\<close> when \<open>H < W\<close>, the size being computed in double arithmetic
  as the library does. In every case the thumbnail is never larger than the source nor
  than \<open>s\<close> in either dimension, and the pasted box lies inside the canvas (nothing is
  cropped).
\<close>

theorem make_square_fit_letterbox:
  fixes img :: image and s :: int
  defines "W \<equiv> im_width (exif_transpose img)" and "H \<equiv> im_height (exif_transpose img)"
  assumes "0 < im_width img" and "im_width img < 2 ^ 31"
    and "0 < im_height img" and "im_height img < 2 ^ 31" and "s \<in> set SIZES"
  shows "\<exists>t. thumbnail (fit_source img) (s, s) LANCZOS = Inr t
    \<and> make_square_fit img s =
        Inr \<lparr>im_mode = ''RGBA'', im_width = s, im_height = s, im_orientation = 1,
             im_pixels = Pasted (Blank ''RGBA'' (s, s) (0, 0, 0, 0))
                           ((s - im_width t) div 2, (s - im_height t) div 2)
                           (im_pixels t) (im_pixels t)\<rparr>
    \<and> (W, H) = (if im_orientation img \<in> {5, 6, 7, 8} then (im_height img, im_width img)
                 else (im_width img, im_height img))
    \<and> (W \<le> s \<and> H \<le> s \<longrightarrow> t = fit_source img)
    \<and> (s < W \<or> s < H \<longrightarrow>
          im_pixels t = Resized LANCZOS (im_size t) (im_pixels (fit_source img)))
    \<and> (s < H \<and> W \<le> H \<longrightarrow> im_height t = s \<and> \<bar>im_width t * H - s * W\<bar> < H)
    \<and> (s < W \<and> H < W \<longrightarrow> im_width t = s \<and> \<bar>im_height t * W - s * H\<bar> < W)
    \<and> 1 \<le> im_width t \<and> im_width t \<le> s \<and> im_width t \<le> W
    \<and> 1 \<le> im_height t \<and> im_height t \<le> s \<and> im_height t \<le> H
    \<and> 0 \<le> (s - im_width t) div 2 \<and> (s - im_width t) div 2 + im_width t \<le> s
    \<and> 0 \<le> (s - im_height t) div 2 \<and> (s - im_height t) div 2 + im_height t \<le> s
    \<and> \<bar>im_width t * H - im_height t * W\<bar> < max W H"
proof -
  have s: "0 < s" using SIZES_bounds[OF assms(7)] by simp
  have sz: "im_width (fit_source img) = W" "im_height (fit_source img) = H"
    using fit_source_size[of img] by (simp_all add: im_size_def W_def H_def)
  have pos: "0 < im_width (fit_source img)" "0 < im_height (fit_source img)"
    using exif_transpose_pos[OF assms(3,5)] by (simp_all add: sz W_def H_def)
  have bnd: "im_width (fit_source img) < 2 ^ 31" "im_height (fit_source img) < 2 ^ 31"
    using exif_transpose_bound[OF assms(4,6)] by (simp_all add: sz W_def H_def)
  have md: "im_mode (fit_source img) \<notin> {''1'', ''P''}"
    using fit_source_mode[of img] by auto
  from thumbnail_square[OF pos assms(7) bnd md, of LANCZOS]
  obtain t where t: "thumbnail (fit_source img) (s, s) LANCZOS = Inr t"
    and same: "W \<le> s \<and> H \<le> s \<longrightarrow> t = fit_source img"
    and px: "s < W \<or> s < H \<longrightarrow>
          im_pixels t = Resized LANCZOS (im_size t) (im_pixels (fit_source img))"
    and tall: "s < H \<and> W \<le> H \<longrightarrow> im_height t = s \<and> \<bar>im_width t * H - s * W\<bar> < H"
    and wide: "s < W \<and> H < W \<longrightarrow> im_width t = s \<and> \<bar>im_height t * W - s * H\<bar> < W"
    and b: "1 \<le> im_width t" "im_width t \<le> s" "im_width t \<le> W"
      "1 \<le> im_height t" "im_height t \<le> s" "im_height t \<le> H"
      "\<bar>im_width t * H - im_height t * W\<bar> < max W H"
    unfolding sz by blast
  have out: "make_square_fit img s =
        Inr \<lparr>im_mode = ''RGBA'', im_width = s, im_height = s, im_orientation = 1,
             im_pixels = Pasted (Blank ''RGBA'' (s, s) (0, 0, 0, 0))
                           ((s - im_width t) div 2, (s - im_height t) div 2)
                           (im_pixels t) (im_pixels t)\<rparr>"
    using s by (simp add: make_square_fit_unfold t new_def paste_def)
  have ori: "(W, H) = (if im_orientation img \<in> {5, 6, 7, 8} then (im_height img, im_width img)
                 else (im_width img, im_height img))"
    using exif_transpose_size[of img] by (simp add: im_size_def W_def H_def)
  show ?thesis
    using t out ori same px tall wide b centre_offset[OF b(2)] centre_offset[OF b(5)] by blast
qed

text \<open>
  A landscape photograph of \<open>800 \<times> 600\<close> at size 128 is scaled to \<open>128 \<times> 96\<close> and pasted
  at \<open>(0, 16)\<close>; the same file with the orientation tag 6 is rotated first, scaled to
  \<open>96 \<times> 128\<close> and pasted at \<open>(16, 0)\<close>; a photograph of \<open>1532 \<times> 1146\<close> at size 256,
  where the two candidate heights 191 and 192 are compared in double arithmetic, is
  scaled to \<open>256 \<times> 192\<close>.
\<close>

theorem make_square_fit_letterbox_witness:
  "0 < im_width photo \<and> im_width photo < 2 ^ 31 \<and> 0 < im_height photo \<and> im_height photo < 2 ^ 31
   \<and> 128 \<in> set SIZES \<and> 256 \<in> set SIZES
   \<and> make_square_fit photo 128 =
        Inr \<lparr>im_mode = ''RGBA'', im_width = 128, im_height = 128, im_orientation = 1,
             im_pixels = Pasted (Blank ''RGBA'' (128, 128) (0, 0, 0, 0)) (0, 16)
                (Resized LANCZOS (128, 96) (Converted ''RGBA'' (Decoded ''photo.jpg'')))
                (Resized LANCZOS (128, 96) (Converted ''RGBA'' (Decoded ''photo.jpg'')))\<rparr>
   \<and> make_square_fit turned 128 =
        Inr \<lparr>im_mode = ''RGBA'', im_width = 128, im_height = 128, im_orientation = 1,
             im_pixels = Pasted (Blank ''RGBA'' (128, 128) (0, 0, 0, 0)) (16, 0)
                (Resized LANCZOS (96, 128)
                   (Converted ''RGBA'' (Transposed ROTATE_270 (Decoded ''photo.jpg''))))
                (Resized LANCZOS (96, 128)
                   (Converted ''RGBA'' (Transposed ROTATE_270 (Decoded ''photo.jpg''))))\<rparr>
   \<and> make_square_fit tie_photo 256 =
        Inr \<lparr>im_mode = ''RGBA'', im_width = 256, im_height = 256, im_orientation = 1,
             im_pixels = Pasted (Blank ''RGBA'' (256, 256) (0, 0, 0, 0)) (0, 32)
                (Resized LANCZOS (256, 192) (Converted ''RGBA'' (Decoded ''tie.jpg'')))
                (Resized LANCZOS (256, 192) (Converted ''RGBA'' (Decoded ''tie.jpg'')))\<rparr>"
proof -
  have h: "0 < im_width photo" "im_width photo < 2 ^ 31" "0 < im_height photo"
    "im_height photo < 2 ^ 31" "128 \<in> set SIZES" "256 \<in> set SIZES"
    by (simp_all add: photo_def SIZES_def)
  have e: "exif_transpose photo = photo"
    by (simp add: photo_def exif_transpose_def transpose_of_def)
  have f: "im_pixels (fit_source photo) = Converted ''RGBA'' (Decoded ''photo.jpg'')"
    by (simp add: fit_source_def e) (simp add: photo_def convert_def)
  have d: "im_width (exif_transpose photo) = 800" "im_height (exif_transpose photo) = 600"
    by (simp_all add: e) (simp_all add: photo_def)
  from make_square_fit_letterbox[OF h(1-5)]
  obtain t where m: "make_square_fit photo 128 =
        Inr \<lparr>im_mode = ''RGBA'', im_width = 128, im_height = 128, im_orientation = 1,
             im_pixels = Pasted (Blank ''RGBA'' (128, 128) (0, 0, 0, 0))
                           ((128 - im_width t) div 2, (128 - im_height t) div 2)
                           (im_pixels t) (im_pixels t)\<rparr>"
    and px0: "128 < im_width (exif_transpose photo) \<or> 128 < im_height (exif_transpose photo) \<longrightarrow>
          im_pixels t = Resized LANCZOS (im_size t) (im_pixels (fit_source photo))"
    and wide: "128 < im_width (exif_transpose photo)
          \<and> im_height (exif_transpose photo) < im_width (exif_transpose photo) \<longrightarrow>
          im_width t = 128 \<and> \<bar>im_height t * im_width (exif_transpose photo)
             - 128 * im_height (exif_transpose photo)\<bar> < im_width (exif_transpose photo)"
    by blast
  have px: "im_pixels t = Resized LANCZOS (im_size t) (im_pixels (fit_source photo))"
    using px0 unfolding d by simp
  have w: "im_width t = 128" and n: "\<bar>im_height t * 800 - 128 * 600\<bar> < (800::int)"
    using wide unfolding d by simp_all
  from n have ht: "im_height t = 96" by linarith
  have p: "make_square_fit photo 128 =
        Inr \<lparr>im_mode = ''RGBA'', im_width = 128, im_height = 128, im_orientation = 1,
             im_pixels = Pasted (Blank ''RGBA'' (128, 128) (0, 0, 0, 0)) (0, 16)
                (Resized LANCZOS (128, 96) (Converted ''RGBA'' (Decoded ''photo.jpg'')))
                (Resized LANCZOS (128, 96) (Converted ''RGBA'' (Decoded ''photo.jpg'')))\<rparr>"
    unfolding m px f by (simp add: im_size_def w ht)
  have h': "0 < im_width turned" "im_width turned < 2 ^ 31" "0 < im_height turned"
    "im_height turned < 2 ^ 31"
    by (simp_all add: turned_def photo_def)
  have e': "exif_transpose turned = \<lparr>im_mode = ''RGB'', im_width = 600, im_height = 800,
      im_orientation = 1, im_pixels = Transposed ROTATE_270 (Decoded ''photo.jpg'')\<rparr>"
    by (simp add: turned_def photo_def exif_transpose_def transpose_of_def swaps_axes_def)
  have f': "im_pixels (fit_source turned)
      = Converted ''RGBA'' (Transposed ROTATE_270 (Decoded ''photo.jpg''))"
    by (simp add: fit_source_def e' convert_def)
  have d': "im_width (exif_transpose turned) = 600" "im_height (exif_transpose turned) = 800"
    by (simp_all add: e')
  from make_square_fit_letterbox[OF h' h(5)]
  obtain t' where m': "make_square_fit turned 128 =
        Inr \<lparr>im_mode = ''RGBA'', im_width = 128, im_height = 128, im_orientation = 1,
             im_pixels = Pasted (Blank ''RGBA'' (128, 128) (0, 0, 0, 0))
                           ((128 - im_width t') div 2, (128 - im_height t') div 2)
                           (im_pixels t') (im_pixels t')\<rparr>"
    and px0': "128 < im_width (exif_transpose turned) \<or> 128 < im_height (exif_transpose turned) \<longrightarrow>
          im_pixels t' = Resized LANCZOS (im_size t') (im_pixels (fit_source turned))"
    and tall: "128 < im_height (exif_transpose turned)
          \<and> im_width (exif_transpose turned) \<le> im_height (exif_transpose turned) \<longrightarrow>
          im_height t' = 128 \<and> \<bar>im_width t' * im_height (exif_transpose turned)
             - 128 * im_width (exif_transpose turned)\<bar> < im_height (exif_transpose turned)"
    by blast
  have px': "im_pixels t' = Resized LANCZOS (im_size t') (im_pixels (fit_source turned))"
    using px0' unfolding d' by simp
  have w': "im_height t' = 128" and n': "\<bar>im_width t' * 800 - 128 * 600\<bar> < (800::int)"
    using tall unfolding d' by simp_all
  from n' have wt: "im_width t' = 96" by linarith
  have q: "make_square_fit turned 128 =
        Inr \<lparr>im_mode = ''RGBA'', im_width = 128, im_height = 128, im_orientation = 1,
             im_pixels = Pasted (Blank ''RGBA'' (128, 128) (0, 0, 0, 0)) (16, 0)
                (Resized LANCZOS (96, 128)
                   (Converted ''RGBA'' (Transposed ROTATE_270 (Decoded ''photo.jpg''))))
                (Resized LANCZOS (96, 128)
                   (Converted ''RGBA'' (Transposed ROTATE_270 (Decoded ''photo.jpg''))))\<rparr>"
    unfolding m' px' f' by (simp add: im_size_def w' wt)
  have r: "make_square_fit tie_photo 256 =
        Inr \<lparr>im_mode = ''RGBA'', im_width = 256, im_height = 256, im_orientation = 1,
             im_pixels = Pasted (Blank ''RGBA'' (256, 256) (0, 0, 0, 0)) (0, 32)
                (Resized LANCZOS (256, 192) (Converted ''RGBA'' (Decoded ''tie.jpg'')))
                (Resized LANCZOS (256, 192) (Converted ''RGBA'' (Decoded ''tie.jpg'')))\<rparr>"
    by code_simp
  show ?thesis using h p q r by blast
qed

text \<open>
  Claim C8. When both sides of the source are at most \<open>s\<close>, \<open>thumbnail\<close> leaves the
  image as it is: what is pasted onto the transparent \<open>s \<times> s\<close> canvas are the pixels of
  the orientation-normalised source in its own size, centred, and not a resampling.
\<close>

theorem make_square_fit_no_upscale:
  assumes "im_width img \<le> s" and "im_height img \<le> s" and "0 \<le> s"
  shows "thumbnail (fit_source img) (s, s) LANCZOS = Inr (fit_source img)
    \<and> im_size (fit_source img) = im_size (exif_transpose img)
    \<and> make_square_fit img s =
        Inr \<lparr>im_mode = ''RGBA'', im_width = s, im_height = s, im_orientation = 1,
             im_pixels = Pasted (Blank ''RGBA'' (s, s) (0, 0, 0, 0))
                           ((s - im_width (exif_transpose img)) div 2,
                            (s - im_height (exif_transpose img)) div 2)
                           (im_pixels (fit_source img)) (im_pixels (fit_source img))\<rparr>
    \<and> 0 \<le> (s - im_width (exif_transpose img)) div 2
    \<and> 0 \<le> (s - im_height (exif_transpose img)) div 2"
proof -
  have sz: "im_width (fit_source img) = im_width (exif_transpose img)"
    "im_height (fit_source img) = im_height (exif_transpose img)"
    using fit_source_size[of img] by (simp_all add: im_size_def)
  have le: "im_width (exif_transpose img) \<le> s" "im_height (exif_transpose img) \<le> s"
    using assms(1,2) by (simp_all add: exif_transpose_def split: option.splits)
  have t: "thumbnail (fit_source img) (s, s) LANCZOS = Inr (fit_source img)"
    using le by (simp add: thumbnail_def preserve_aspect_ratio_none sz)
  show ?thesis
    using assms(3) le by (simp add: make_square_fit_unfold t new_def paste_def sz fit_source_size)
qed

theorem make_square_fit_no_upscale_witness:
  "im_width icon \<le> 32 \<and> im_height icon \<le> 32 \<and> (0::int) \<le> 32
   \<and> im_size (fit_source icon) = (10, 20)
   \<and> make_square_fit icon 32 =
        Inr \<lparr>im_mode = ''RGBA'', im_width = 32, im_height = 32, im_orientation = 1,
             im_pixels = Pasted (Blank ''RGBA'' (32, 32) (0, 0, 0, 0)) (11, 6)
                           (Transposed ROTATE_270 (Decoded ''icon.png''))
                           (Transposed ROTATE_270 (Decoded ''icon.png''))\<rparr>"
proof -
  have h: "im_width icon \<le> 32" "im_height icon \<le> 32" "(0::int) \<le> 32"
    by (simp_all add: icon_def)
  have e: "exif_transpose icon = \<lparr>im_mode = ''RGBA'', im_width = 10, im_height = 20,
      im_orientation = 1, im_pixels = Transposed ROTATE_270 (Decoded ''icon.png'')\<rparr>"
    by (simp add: icon_def exif_transpose_def transpose_of_def swaps_axes_def)
  have f: "fit_source icon = exif_transpose icon"
    by (simp add: fit_source_def e)
  from make_square_fit_no_upscale[OF h] show ?thesis using h by (simp add: f e im_size_def)
qed

text \<open>
  Claim C2. For a decoded image of orientation-normalised size \<open>w \<times> h\<close> and a positive
  target size \<open>s\<close>, \<open>make_square_cover\<close> crops the square of side \<open>min w h\<close> at
  \<open>left = (w - side) div 2\<close>, \<open>upper = (h - side) div 2\<close>, resizes it to \<open>s \<times> s\<close> and
  returns it in a mode with an alpha channel. The box lies inside the image, so the crop
  adds no padding; it is centred up to one pixel, and it touches the border on the
  shorter axis. The filter that is applied is LANCZOS unless the source is in mode
  \<^verbatim>\<open>1\<close> or \<^verbatim>\<open>P\<close>: the script resizes before it converts to RGBA (lines 39 and 40),
  and for these two modes the library replaces the requested filter by NEAREST. The fit
  transform converts first (lines 21 to 24) and always resamples with LANCZOS, so for a
  bilevel or palette image the cover transform does not use the filter of the fit
  transform.
\<close>

theorem make_square_cover_center_crop:
  fixes img :: image and s :: int
  defines "w \<equiv> im_width (exif_transpose img)" and "h \<equiv> im_height (exif_transpose img)"
  defines "side \<equiv> min w h"
  defines "left \<equiv> (w - side) div 2" and "upper \<equiv> (h - side) div 2"
  defines "applied \<equiv> (if im_mode (exif_transpose img) \<in> {''1'', ''P''} then NEAREST else LANCZOS)"
  assumes "0 < im_width img" and "0 < im_height img" and "0 < s"
  shows "\<exists>c out. crop (exif_transpose img) (left, upper, left + side, upper + side) = Inr c
    \<and> im_size c = (side, side)
    \<and> im_pixels c = Cropped (left, upper, left + side, upper + side) (im_pixels (exif_transpose img))
    \<and> make_square_cover img s = Inr out
    \<and> im_size out = (s, s)
    \<and> im_mode out \<in> {''RGBA'', ''LA''}
    \<and> im_pixels out =
        (let r = (if side = s then im_pixels c else Resized applied (s, s) (im_pixels c))
         in if im_mode (exif_transpose img) \<in> {''RGBA'', ''LA''} then r else Converted ''RGBA'' r)
    \<and> 0 \<le> left \<and> left + side \<le> w \<and> 0 \<le> upper \<and> upper + side \<le> h
    \<and> (left = 0 \<or> upper = 0)
    \<and> (w - (left + side)) - left \<in> {0, 1} \<and> (h - (upper + side)) - upper \<in> {0, 1}"
proof -
  have pos: "0 < w" "0 < h" using exif_transpose_pos[OF assms(7,8)] by (simp_all add: w_def h_def)
  then have sp: "0 < side" "side \<le> w" "side \<le> h" "side = w \<or> side = h"
    by (auto simp: side_def min_def)
  define box where "box = (left, upper, left + side, upper + side)"
  define c where "c = (exif_transpose img)\<lparr>im_width := side, im_height := side,
      im_pixels := Cropped box (im_pixels (exif_transpose img))\<rparr>"
  have c: "crop (exif_transpose img) box = Inr c"
    using sp by (simp add: crop_def c_def box_def)
  have g1: "0 \<le> left" "left + side \<le> w" "(w - (left + side)) - left \<in> {0, 1}"
    using centre_offset[OF sp(2)] unfolding left_def by blast+
  have g2: "0 \<le> upper" "upper + side \<le> h" "(h - (upper + side)) - upper \<in> {0, 1}"
    using centre_offset[OF sp(3)] unfolding upper_def by blast+
  have g3: "left = 0 \<or> upper = 0" using sp(4) by (auto simp: left_def upper_def)
  define r where "r = (if side = s then c else c\<lparr>im_width := s, im_height := s,
      im_pixels := Resized applied (s, s) (im_pixels c)\<rparr>)"
  have r: "resize c (s, s) LANCZOS = Inr r"
    using assms(9) by (auto simp: resize_def r_def im_size_def c_def applied_def)
  define out where "out = (if im_mode r \<notin> {''RGBA'', ''LA''} then convert r ''RGBA'' else r)"
  have m: "make_square_cover img s = Inr out"
    using c r
    by (simp add: make_square_cover_def Let_def im_size_def w_def[symmetric] h_def[symmetric]
        side_def[symmetric] left_def[symmetric] upper_def[symmetric] box_def[symmetric] out_def)
  have o1: "im_size out = (s, s)"
    by (auto simp: out_def r_def convert_def im_size_def c_def)
  have o2: "im_mode out \<in> {''RGBA'', ''LA''}"
    by (auto simp: out_def convert_def)
  have o3: "im_pixels out =
        (let r = (if side = s then im_pixels c else Resized applied (s, s) (im_pixels c))
         in if im_mode (exif_transpose img) \<in> {''RGBA'', ''LA''} then r else Converted ''RGBA'' r)"
    by (auto simp: out_def r_def convert_def c_def Let_def)
  have c1: "im_size c = (side, side)" "im_pixels c = Cropped box (im_pixels (exif_transpose img))"
    by (simp_all add: c_def im_size_def)
  show ?thesis
    using c c1 m o1 o2 o3 g1 g2 g3 unfolding box_def by blast
qed

text \<open>
  A palette image of \<open>800 \<times> 600\<close> at size 256: the cover transform resamples the cropped
  square with NEAREST, the fit transform resamples the same image with LANCZOS.
\<close>

theorem make_square_cover_center_crop_witness:
  "0 < im_width drawing \<and> 0 < im_height drawing \<and> (0::int) < 256
   \<and> make_square_cover drawing 256 =
       Inr \<lparr>im_mode = ''RGBA'', im_width = 256, im_height = 256, im_orientation = 1,
            im_pixels = Converted ''RGBA'' (Resized NEAREST (256, 256)
                          (Cropped (100, 0, 700, 600) (Decoded ''drawing.png'')))\<rparr>
   \<and> make_square_fit drawing 256 =
       Inr \<lparr>im_mode = ''RGBA'', im_width = 256, im_height = 256, im_orientation = 1,
            im_pixels = Pasted (Blank ''RGBA'' (256, 256) (0, 0, 0, 0)) (0, 32)
               (Resized LANCZOS (256, 192) (Converted ''RGBA'' (Decoded ''drawing.png'')))
               (Resized LANCZOS (256, 192) (Converted ''RGBA'' (Decoded ''drawing.png'')))\<rparr>"
proof -
  have h: "0 < im_width drawing" "0 < im_height drawing" "(0::int) < 256"
    by (simp_all add: drawing_def)
  have e: "exif_transpose drawing = drawing"
    by (simp add: drawing_def exif_transpose_def transpose_of_def)
  from make_square_cover_center_crop[OF h]
  obtain c out where "crop (exif_transpose drawing) (100, 0, 700, 600) = Inr c"
    and "im_pixels c = Cropped (100, 0, 700, 600) (Decoded ''drawing.png'')"
    and "make_square_cover drawing 256 = Inr out" and "im_size out = (256, 256)"
    and "im_pixels out = Converted ''RGBA'' (Resized NEAREST (256, 256) (im_pixels c))"
    unfolding e by (auto simp: drawing_def Let_def)
  moreover have "make_square_cover drawing 256 =
       Inr \<lparr>im_mode = ''RGBA'', im_width = 256, im_height = 256, im_orientation = 1,
            im_pixels = Converted ''RGBA'' (Resized NEAREST (256, 256)
                          (Cropped (100, 0, 700, 600) (Decoded ''drawing.png'')))\<rparr>"
    by code_simp
  moreover have "make_square_fit drawing 256 =
       Inr \<lparr>im_mode = ''RGBA'', im_width = 256, im_height = 256, im_orientation = 1,
            im_pixels = Pasted (Blank ''RGBA'' (256, 256) (0, 0, 0, 0)) (0, 32)
               (Resized LANCZOS (256, 192) (Converted ''RGBA'' (Decoded ''drawing.png'')))
               (Resized LANCZOS (256, 192) (Converted ''RGBA'' (Decoded ''drawing.png'')))\<rparr>"
    by code_simp
  ultimately show ?thesis using h by simp
qed

section \<open>The command line\<close>

lemma lower_char_idem: "lower_char (lower_char c) = lower_char c"
proof -
  define n where "n = (of_char c :: nat)"
  have lt: "n < 256" unfolding n_def by (rule nat_of_char_less_256)
  show ?thesis
  proof (cases "(65 \<le> n \<and> n \<le> 90) \<or> (192 \<le> n \<and> n \<le> 222 \<and> n \<noteq> 215)")
    case True
    then have mod: "(n + 32) mod 256 = n + 32" by auto
    have l: "lower_char c = char_of (n + 32)"
      unfolding lower_char_def Let_def n_def[symmetric] using True by simp
    have "(of_char (char_of (n + 32)) :: nat) = n + 32"
      by (simp only: of_char_of mod)
    moreover have "\<not> ((65 \<le> n + 32 \<and> n + 32 \<le> 90) \<or> (192 \<le> n + 32 \<and> n + 32 \<le> 222 \<and> n + 32 \<noteq> 215))"
      using True by auto
    ultimately show ?thesis unfolding l by (simp add: lower_char_def Let_def)
  next
    case False
    have l: "lower_char c = c"
      unfolding lower_char_def Let_def n_def[symmetric] using False by auto
    show ?thesis by (simp add: l)
  qed
qed

lemma lower_idem: "lower (lower s) = lower s"
  by (simp add: lower_def lower_char_idem)

lemma startswith_mode_eq:
  assumes "startswith m ''--mode=''"
  shows "m = ''--mode='' @ drop 7 m"
proof -
  have len: "length ''--mode='' = 7" by simp
  have "take 7 m = ''--mode=''" using assms by (simp only: startswith_def len)
  then have "take 7 m @ drop 7 m = ''--mode='' @ drop 7 m" by (simp only:)
  then show ?thesis by (simp only: append_take_drop_id)
qed

lemma split1_mode: "split1 (''--mode='' @ r) CHR ''='' = [''--mode'', r]"
  by (simp add: split1_def)

lemma mode_of_lower: "mode_of (lower a) = mode_of a"
  by (simp add: mode_of_def lower_idem)

lemma mode_of_cases:
  "mode_of a =
     (if lower a \<in> {''fit'', ''--mode=fit''} then Inr ''fit''
      else if lower a \<in> {''cover'', ''--mode=cover''} then Inr ''cover''
      else if startswith (lower a) ''--mode='' then Inr (drop 7 (lower a))
      else Inr (lower a))"
proof (cases "startswith (lower a) ''--mode=''")
  case True
  from startswith_mode_eq[OF True] obtain r where m: "lower a = ''--mode='' @ r" and r: "drop 7 (lower a) = r"
    by metis
  have "item (split1 (lower a) CHR ''='') 1 = Inr r"
    unfolding m split1_mode by (simp add: item_def)
  then show ?thesis using True unfolding mode_of_def Let_def r by simp
next
  case False
  then show ?thesis unfolding mode_of_def Let_def by simp
qed

lemma mode_of_valid:
  "(\<exists>md. mode_of a = Inr md \<and> md \<in> {''fit'', ''cover''}) \<longleftrightarrow>
     lower a \<in> {''fit'', ''cover'', ''--mode=fit'', ''--mode=cover''}"
proof (cases "startswith (lower a) ''--mode=''")
  case True
  from startswith_mode_eq[OF True] obtain r where m: "lower a = ''--mode='' @ r" and r: "drop 7 (lower a) = r"
    by metis
  show ?thesis unfolding mode_of_cases r unfolding m by auto
next
  case False
  show ?thesis unfolding mode_of_cases using False by auto
qed

lemma mode_of_total: "\<exists>md. mode_of a = Inr md"
  by (simp add: mode_of_cases)

lemma mode_of_fit_iff: "mode_of a = Inr ''fit'' \<longleftrightarrow> lower a \<in> {''fit'', ''--mode=fit''}"
proof (cases "startswith (lower a) ''--mode=''")
  case True
  from startswith_mode_eq[OF True] obtain r where m: "lower a = ''--mode='' @ r" and r: "drop 7 (lower a) = r"
    by metis
  show ?thesis unfolding mode_of_cases r unfolding m by auto
next
  case False
  show ?thesis unfolding mode_of_cases using False by auto
qed

lemma mode_of_cover_iff: "mode_of a = Inr ''cover'' \<longleftrightarrow> lower a \<in> {''cover'', ''--mode=cover''}"
proof (cases "startswith (lower a) ''--mode=''")
  case True
  from startswith_mode_eq[OF True] obtain r where m: "lower a = ''--mode='' @ r" and r: "drop 7 (lower a) = r"
    by metis
  show ?thesis unfolding mode_of_cases r unfolding m by auto
next
  case False
  show ?thesis unfolding mode_of_cases using False by auto
qed

lemma mode_of_invalid:
  assumes "lower a \<notin> {''fit'', ''cover'', ''--mode=fit'', ''--mode=cover''}"
  shows "\<exists>md. mode_of a = Inr md \<and> md \<notin> {''fit'', ''cover''}"
proof -
  obtain md where md: "mode_of a = Inr md" using mode_of_total by blast
  have "md \<notin> {''fit'', ''cover''}"
    using assms md mode_of_fit_iff[of a] mode_of_cover_iff[of a] by auto
  then show ?thesis using md by blast
qed

lemma mode_of_valid_cases:
  assumes "lower a \<in> {''fit'', ''cover'', ''--mode=fit'', ''--mode=cover''}"
  shows "mode_of a = Inr ''fit'' \<or> mode_of a = Inr ''cover''"
  using assms mode_of_fit_iff[of a] mode_of_cover_iff[of a] by auto


lemma main_mode_invalid:
  assumes "4 \<le> length argv"
    and "resolve w (argv ! 1) = Inr in_dir" and "resolve w (argv ! 2) = Inr out_dir"
    and "lower (argv ! 3) \<notin> {''fit'', ''cover'', ''--mode=fit'', ''--mode=cover''}"
  shows "main w argv st = (Exit 2, print InvalidMode st)"
proof -
  from mode_of_invalid[OF assms(4)] obtain md where "mode_of (argv ! 3) = Inr md"
    and "md \<notin> {''fit'', ''cover''}" by blast
  then show ?thesis using assms(1,2,3) by (simp add: main_def Let_def)
qed

lemma main_unresolved:
  assumes "3 \<le> length argv"
    and "isl (resolve w (argv ! 1)) \<or> isl (resolve w (argv ! 2))"
  shows "\<exists>e. main w argv st = (Uncaught e, st)"
proof -
  have "\<not> length argv < 3" using assms(1) by simp
  then show ?thesis using assms(2)
    by (auto simp: main_def isl_def split: sum.splits)
qed

lemma main_batch:
  assumes "3 \<le> length argv"
    and "resolve w (argv ! 1) = Inr in_dir" and "resolve w (argv ! 2) = Inr out_dir"
    and "(if 4 \<le> length argv then mode_of (argv ! 3) else Inr ''fit'') = Inr md"
    and "md = ''fit'' \<or> md = ''cover''"
  shows "main w argv st = batch w in_dir out_dir md st"
proof -
  have "\<not> length argv < 3" using assms(1) by simp
  then show ?thesis
    unfolding main_def batch_def Let_def using assms(2,3,4,5)
    by (simp split: option.splits)
qed

lemma main_mode_valid:
  assumes "3 \<le> length argv"
    and "4 \<le> length argv \<longrightarrow> lower (argv ! 3) \<in> {''fit'', ''cover'', ''--mode=fit'', ''--mode=cover''}"
    and "resolve w (argv ! 1) = Inr in_dir" and "resolve w (argv ! 2) = Inr out_dir"
  shows "\<exists>md. (md = ''fit'' \<or> md = ''cover'') \<and>
     (\<forall>st. main w argv st = batch w in_dir out_dir md st)"
proof (cases "4 \<le> length argv")
  case True
  with assms(2) mode_of_valid_cases
  have "mode_of (argv ! 3) = Inr ''fit'' \<or> mode_of (argv ! 3) = Inr ''cover''" by blast
  then obtain md where md: "mode_of (argv ! 3) = Inr md" "md = ''fit'' \<or> md = ''cover''" by blast
  have "(if 4 \<le> length argv then mode_of (argv ! 3) else Inr ''fit'') = Inr md"
    using True md(1) by simp
  from main_batch[OF assms(1,3,4) this md(2)] md(2) show ?thesis by blast
next
  case False
  then have "(if 4 \<le> length argv then mode_of (argv ! 3) else Inr ''fit'') = Inr ''fit''" by simp
  from main_batch[OF assms(1,3,4) this] show ?thesis by blast
qed

lemma batch_not_2: "fst (batch w i out md st) \<noteq> Exit 2"
  by (simp add: batch_def Let_def split: option.splits)

text \<open>
  Claim C10. The third argument is lowercased before it is matched: a run with the
  argument and the run with its lowercase form are the same run. The run ends with
  status 2 exactly when both paths were expanded and resolved (lines 64 and 65, which
  come first) and the lowercase form is none of \<open>fit\<close>, \<open>cover\<close>, \<open>--mode=fit\<close>,
  \<open>--mode=cover\<close>; the mode is \<open>fit\<close> for the two forms of fit and \<open>cover\<close> for the two
  forms of cover.
\<close>

theorem mode_argument_case_insensitive:
  assumes "4 \<le> length argv"
  shows "main w (argv[3 := lower (argv ! 3)]) st = main w argv st
    \<and> (fst (main w argv st) = Exit 2
         \<longleftrightarrow> \<not> isl (resolve w (argv ! 1)) \<and> \<not> isl (resolve w (argv ! 2))
             \<and> lower (argv ! 3) \<notin> {''fit'', ''cover'', ''--mode=fit'', ''--mode=cover''})
    \<and> (mode_of (argv ! 3) = Inr ''fit'' \<longleftrightarrow> lower (argv ! 3) \<in> {''fit'', ''--mode=fit''})
    \<and> (mode_of (argv ! 3) = Inr ''cover'' \<longleftrightarrow> lower (argv ! 3) \<in> {''cover'', ''--mode=cover''})"
proof -
  have len: "3 < length argv" "\<not> length argv < 3" "3 \<le> length argv" using assms by simp_all
  define a where "a = lower (argv ! 3)"
  have e: "length (argv[3 := a]) = length argv" "argv[3 := a] ! 1 = argv ! 1"
    "argv[3 := a] ! 2 = argv ! 2" "argv[3 := a] ! 3 = a"
    using len(1) by simp_all
  have "mode_of a = mode_of (argv ! 3)" unfolding a_def by (rule mode_of_lower)
  then have "main w (argv[3 := a]) st = main w argv st"
    unfolding main_def e by (simp only:)
  then have same: "main w (argv[3 := lower (argv ! 3)]) st = main w argv st"
    unfolding a_def .
  have exit2: "fst (main w argv st) = Exit 2
      \<longleftrightarrow> \<not> isl (resolve w (argv ! 1)) \<and> \<not> isl (resolve w (argv ! 2))
          \<and> lower (argv ! 3) \<notin> {''fit'', ''cover'', ''--mode=fit'', ''--mode=cover''}"
  proof (cases "isl (resolve w (argv ! 1)) \<or> isl (resolve w (argv ! 2))")
    case True
    from main_unresolved[OF len(3) True] obtain x where "main w argv st = (Uncaught x, st)"
      by blast
    then have "fst (main w argv st) \<noteq> Exit 2" by simp
    then show ?thesis using True by blast
  next
    case False
    then obtain i out where r: "resolve w (argv ! 1) = Inr i" "resolve w (argv ! 2) = Inr out"
      by (auto simp: isl_def) (metis sum.exhaust)+
    show ?thesis
    proof (cases "lower (argv ! 3) \<in> {''fit'', ''cover'', ''--mode=fit'', ''--mode=cover''}")
      case True
      then have "4 \<le> length argv \<longrightarrow>
          lower (argv ! 3) \<in> {''fit'', ''cover'', ''--mode=fit'', ''--mode=cover''}" by simp
      from main_mode_valid[OF len(3) this r]
      obtain md where "main w argv st = batch w i out md st" by blast
      then have "fst (main w argv st) \<noteq> Exit 2" by (simp add: batch_not_2)
      then show ?thesis using True by blast
    next
      case inv: False
      from main_mode_invalid[OF assms r inv] have "fst (main w argv st) = Exit 2" by simp
      then show ?thesis using False inv by blast
    qed
  qed
  show ?thesis using same exit2 mode_of_fit_iff mode_of_cover_iff by blast
qed

theorem mode_argument_case_insensitive_witness:
  "(4::nat) \<le> length [''scale_images.py'', ''/in'', ''/out'', ''--MODE=Cover'']
   \<and> main cli_world [''scale_images.py'', ''/in'', ''/out'', ''--mode=cover''] empty_sys
       = main cli_world [''scale_images.py'', ''/in'', ''/out'', ''--MODE=Cover''] empty_sys
   \<and> fst (main cli_world [''scale_images.py'', ''/in'', ''/out'', ''--MODE=Cover''] empty_sys) \<noteq> Exit 2
   \<and> mode_of ''--MODE=Cover'' = Inr ''cover''"
proof -
  have h: "4 \<le> length [''scale_images.py'', ''/in'', ''/out'', ''--MODE=Cover'']" by simp
  have l: "lower ''--MODE=Cover'' = ''--mode=cover''" by code_simp
  from mode_argument_case_insensitive[OF h, of cli_world empty_sys]
  show ?thesis using h by (simp add: l)
qed




section \<open>What a run writes and prints\<close>

lemma for_sizes_Cons:
  "for_sizes w img p out md (s # ss) st =
     (case render md img s of
        Inl e \<Rightarrow> (st, Some e)
      | Inr im \<Rightarrow>
          (case save_error w (joinpath out (out_name p s)) of
             Some e \<Rightarrow> (st, Some e)
           | None \<Rightarrow>
               for_sizes w img p out md ss
                 (st\<lparr>files := (files st)(joinpath out (out_name p s) \<mapsto> im)\<rparr>)))"
  by (simp add: render_def save_def Let_def split: sum.splits option.splits)

lemma for_sizes_stdout: "stdout (fst (for_sizes w img p out md ss st)) = stdout st"
proof (induction ss arbitrary: st)
  case Nil
  show ?case by simp
next
  case (Cons s ss)
  show ?case unfolding for_sizes_Cons
    by (simp add: Cons.IH split: sum.splits option.splits)
qed

lemma for_sizes_state:
  "files (fst (for_sizes w img p out md ss st))
     = files st ++ files (fst (for_sizes w img p out md ss empty_sys))
   \<and> snd (for_sizes w img p out md ss st) = snd (for_sizes w img p out md ss empty_sys)"
proof (induction ss arbitrary: st)
  case Nil
  show ?case by (simp add: empty_sys_def)
next
  case (Cons s ss)
  show ?case
  proof (cases "render md img s")
    case (Inl e)
    then show ?thesis unfolding for_sizes_Cons by (simp add: empty_sys_def)
  next
    case (Inr im)
    show ?thesis
    proof (cases "save_error w (joinpath out (out_name p s))")
      case (Some e)
      then show ?thesis unfolding for_sizes_Cons Inr by (simp add: empty_sys_def)
    next
      case None
      define k where "k = joinpath out (out_name p s)"
      define D where "D = files (fst (for_sizes w img p out md ss empty_sys))"
      define st1 where "st1 = st\<lparr>files := (files st)(k \<mapsto> im)\<rparr>"
      define e1 where "e1 = empty_sys\<lparr>files := (files empty_sys)(k \<mapsto> im)\<rparr>"
      have r: "files st1 = (files st)(k \<mapsto> im)" "files e1 = (files empty_sys)(k \<mapsto> im)"
        by (simp_all add: st1_def e1_def)
      have st: "files (fst (for_sizes w img p out md ss st1)) = (files st)(k \<mapsto> im) ++ D"
        and e: "files (fst (for_sizes w img p out md ss e1)) = (files empty_sys)(k \<mapsto> im) ++ D"
        and sn: "snd (for_sizes w img p out md ss st1) = snd (for_sizes w img p out md ss e1)"
        using Cons.IH[of st1] Cons.IH[of e1] unfolding D_def r by (blast, blast, metis)
      have "(files st)(k \<mapsto> im) ++ D = files st ++ ((files empty_sys)(k \<mapsto> im) ++ D)"
        by (rule ext) (simp add: empty_sys_def map_add_def split: option.splits)
      moreover have "for_sizes w img p out md (s # ss) st = for_sizes w img p out md ss st1"
        "for_sizes w img p out md (s # ss) empty_sys = for_sizes w img p out md ss e1"
        unfolding for_sizes_Cons Inr using None by (simp_all add: st1_def e1_def k_def)
      ultimately show ?thesis using st e sn by (simp only:)
    qed
  qed
qed

lemma process_image_eq:
  "process_image w p out md st =
     \<lparr>files = files st ++ written w out md p, stdout = stdout st @ [status_line w out md p]\<rparr>"
proof (cases "image_open w (path_str p)")
  case (Inl e)
  then show ?thesis
    by (simp add: process_image_def written_def status_line_def failure_def print_def empty_sys_def)
next
  case (Inr img)
  obtain st' r where fs: "for_sizes w img p out md SIZES st = (st', r)" by fastforce
  obtain e' r' where fe: "for_sizes w img p out md SIZES empty_sys = (e', r')" by fastforce
  from for_sizes_state[of w img p out md SIZES st] fs fe
  have f: "files st' = files st ++ files e'" and r: "r = r'" by simp_all
  from for_sizes_stdout[of w img p out md SIZES st] fs have o: "stdout st' = stdout st" by simp
  have wr: "written w out md p = files e'"
    by (cases r') (simp_all add: written_def process_image_def Inr fe print_def)
  have fl: "failure w out md p = r" by (simp add: failure_def Inr fe r)
  show ?thesis
    by (cases r) (simp_all add: process_image_def Inr fs print_def f o wr status_line_def fl)
qed

lemma process_all_eq:
  "process_all w ps out md st =
     \<lparr>files = foldl (++) (files st) (map (written w out md) ps),
      stdout = stdout st @ map (status_line w out md) ps\<rparr>"
proof (induction ps arbitrary: st)
  case Nil
  show ?case by simp
next
  case (Cons p ps)
  show ?case by (simp add: Cons.IH process_image_eq)
qed

lemma out_name_tag: "out_name p s = stem (p_name p) @ size_tag s"
  by (simp add: out_name_def size_tag_def)

lemma size_tags:
  "size_tag 1024 = ''_1024x1024.png''" "size_tag 512 = ''_512x512.png''"
  "size_tag 256 = ''_256x256.png''" "size_tag 128 = ''_128x128.png''"
  "size_tag 64 = ''_64x64.png''" "size_tag 32 = ''_32x32.png''"
  by code_simp+

lemma append_eq_rev: "a @ x = b @ y \<Longrightarrow> rev x @ rev a = rev y @ rev b"
  by (metis rev_append)

lemma size_tag_inj:
  assumes "s \<in> set SIZES" and "s' \<in> set SIZES" and "a @ size_tag s = b @ size_tag s'"
  shows "s = s' \<and> a = b"
proof -
  from assms(3) have r: "rev (size_tag s) @ rev a = rev (size_tag s') @ rev b"
    by (rule append_eq_rev)
  from assms(1,2) r show ?thesis
    by (auto simp: SIZES_def size_tags)
qed

lemma joinpath_inj: "joinpath d a = joinpath d b \<longleftrightarrow> a = b"
  by (simp add: joinpath_def)

lemma out_path_inj:
  assumes "s \<in> set SIZES" and "s' \<in> set SIZES"
    and "joinpath out (out_name p s) = joinpath out (out_name q s')"
  shows "s = s' \<and> stem (p_name p) = stem (p_name q)"
  using size_tag_inj[OF assms(1,2)] assms(3) by (simp add: joinpath_inj out_name_tag)

lemma for_sizes_other:
  assumes "k \<notin> (\<lambda>s. joinpath out (out_name p s)) ` set ss"
  shows "files (fst (for_sizes w img p out md ss st)) k = files st k"
  using assms
proof (induction ss arbitrary: st)
  case Nil
  show ?case by simp
next
  case (Cons s ss)
  then have k: "k \<noteq> joinpath out (out_name p s)"
    and r: "k \<notin> (\<lambda>s. joinpath out (out_name p s)) ` set ss" by auto
  show ?case unfolding for_sizes_Cons
    using k by (simp add: Cons.IH[OF r] split: sum.splits option.splits)
qed

lemma for_sizes_dom_subset:
  "dom (files (fst (for_sizes w img p out md ss st)))
     \<subseteq> dom (files st) \<union> (\<lambda>s. joinpath out (out_name p s)) ` set ss"
  using for_sizes_other[of _ out p ss w img md st] by (auto simp: dom_def) 

lemma for_sizes_ok:
  assumes "snd (for_sizes w img p out md ss st) = None" and "s \<in> set ss"
  shows "\<exists>im. render md img s = Inr im \<and> save_error w (joinpath out (out_name p s)) = None"
  using assms
proof (induction ss arbitrary: st)
  case Nil
  then show ?case by simp
next
  case (Cons a ss)
  from Cons.prems(1) obtain im where a: "render md img a = Inr im"
    "save_error w (joinpath out (out_name p a)) = None"
    and rest: "snd (for_sizes w img p out md ss
        (st\<lparr>files := (files st)(joinpath out (out_name p a) \<mapsto> im)\<rparr>)) = None"
    unfolding for_sizes_Cons by (auto split: sum.splits option.splits)
  show ?case
  proof (cases "s = a")
    case True
    then show ?thesis using a by simp
  next
    case False
    with Cons.prems(2) have "s \<in> set ss" by simp
    from Cons.IH[OF rest this] show ?thesis .
  qed
qed

lemma for_sizes_saved:
  assumes "snd (for_sizes w img p out md ss st) = None" and "s \<in> set ss"
    and "distinct (map (\<lambda>s. joinpath out (out_name p s)) ss)"
    and "render md img s = Inr im"
  shows "files (fst (for_sizes w img p out md ss st)) (joinpath out (out_name p s)) = Some im"
  using assms(1,2,3)
proof (induction ss arbitrary: st)
  case Nil
  then show ?case by simp
next
  case (Cons a ss)
  from Cons.prems(1) obtain ia where a: "render md img a = Inr ia"
    "save_error w (joinpath out (out_name p a)) = None"
    and rest: "snd (for_sizes w img p out md ss
        (st\<lparr>files := (files st)(joinpath out (out_name p a) \<mapsto> ia)\<rparr>)) = None"
    unfolding for_sizes_Cons by (auto split: sum.splits option.splits)
  have step: "for_sizes w img p out md (a # ss) st = for_sizes w img p out md ss
        (st\<lparr>files := (files st)(joinpath out (out_name p a) \<mapsto> ia)\<rparr>)"
    unfolding for_sizes_Cons using a by simp
  show ?case
  proof (cases "s = a")
    case True
    have "joinpath out (out_name p a) \<notin> (\<lambda>s. joinpath out (out_name p s)) ` set ss"
      using Cons.prems(3) by auto
    from for_sizes_other[OF this] show ?thesis
      unfolding step using True a(1) assms(4) by simp
  next
    case False
    with Cons.prems(2) have "s \<in> set ss" by simp
    moreover have "distinct (map (\<lambda>s. joinpath out (out_name p s)) ss)"
      using Cons.prems(3) by simp
    ultimately show ?thesis unfolding step using Cons.IH[OF rest] by blast
  qed
qed

lemma for_sizes_dom_ok:
  assumes "snd (for_sizes w img p out md ss st) = None"
  shows "dom (files (fst (for_sizes w img p out md ss st)))
     = dom (files st) \<union> (\<lambda>s. joinpath out (out_name p s)) ` set ss"
  using assms
proof (induction ss arbitrary: st)
  case Nil
  show ?case by simp
next
  case (Cons a ss)
  from Cons.prems(1) obtain ia where a: "render md img a = Inr ia"
    "save_error w (joinpath out (out_name p a)) = None"
    and rest: "snd (for_sizes w img p out md ss
        (st\<lparr>files := (files st)(joinpath out (out_name p a) \<mapsto> ia)\<rparr>)) = None"
    unfolding for_sizes_Cons by (auto split: sum.splits option.splits)
  have step: "for_sizes w img p out md (a # ss) st = for_sizes w img p out md ss
        (st\<lparr>files := (files st)(joinpath out (out_name p a) \<mapsto> ia)\<rparr>)"
    unfolding for_sizes_Cons using a by simp
  show ?case unfolding step Cons.IH[OF rest] by auto
qed

lemma SIZES_paths_distinct: "distinct (map (\<lambda>s. joinpath out (out_name p s)) SIZES)"
proof -
  have "inj_on (\<lambda>s. joinpath out (out_name p s)) (set SIZES)"
    by (rule inj_onI) (use out_path_inj in blast)
  moreover have "distinct SIZES" by (simp add: SIZES_def)
  ultimately show ?thesis by (simp add: distinct_map)
qed

lemma written_open_error:
  assumes "image_open w (path_str p) = Inl e"
  shows "written w out md p = Map.empty" and "failure w out md p = Some e"
  using assms by (simp_all add: written_def failure_def process_image_def print_def empty_sys_def)

lemma written_for_sizes:
  assumes "image_open w (path_str p) = Inr img"
  shows "written w out md p = files (fst (for_sizes w img p out md SIZES empty_sys))"
    and "failure w out md p = snd (for_sizes w img p out md SIZES empty_sys)"
proof -
  obtain e' r' where fe: "for_sizes w img p out md SIZES empty_sys = (e', r')" by fastforce
  show "written w out md p = files (fst (for_sizes w img p out md SIZES empty_sys))"
    by (cases r') (simp_all add: written_def process_image_def assms fe print_def)
  show "failure w out md p = snd (for_sizes w img p out md SIZES empty_sys)"
    by (simp add: failure_def assms)
qed

lemma written_dom_subset:
  "dom (written w out md p) \<subseteq> (\<lambda>s. joinpath out (out_name p s)) ` set SIZES"
proof (cases "image_open w (path_str p)")
  case (Inl e)
  then show ?thesis by (simp add: written_open_error)
next
  case (Inr img)
  show ?thesis unfolding written_for_sizes(1)[OF Inr]
    using for_sizes_dom_subset[of w img p out md SIZES empty_sys] by (simp add: empty_sys_def)
qed

lemma failure_None_open:
  assumes "failure w out md p = None"
  shows "\<exists>img. image_open w (path_str p) = Inr img"
  using assms by (cases "image_open w (path_str p)") (simp_all add: failure_def)

lemma written_dom_ok:
  assumes "failure w out md p = None"
  shows "dom (written w out md p) = (\<lambda>s. joinpath out (out_name p s)) ` set SIZES"
proof -
  from failure_None_open[OF assms] obtain img where o: "image_open w (path_str p) = Inr img" ..
  have "snd (for_sizes w img p out md SIZES empty_sys) = None"
    using assms written_for_sizes(2)[OF o] by simp
  from for_sizes_dom_ok[OF this] show ?thesis
    unfolding written_for_sizes(1)[OF o] by (simp add: empty_sys_def)
qed

lemma written_content:
  assumes "failure w out md p = None" and "image_open w (path_str p) = Inr img"
    and "s \<in> set SIZES"
  shows "\<exists>im. render md img s = Inr im \<and> written w out md p (joinpath out (out_name p s)) = Some im"
proof -
  have n: "snd (for_sizes w img p out md SIZES empty_sys) = None"
    using assms(1) written_for_sizes(2)[OF assms(2)] by simp
  from for_sizes_ok[OF n assms(3)] obtain im where im: "render md img s = Inr im" by blast
  from for_sizes_saved[OF n assms(3) SIZES_paths_distinct im] im show ?thesis
    unfolding written_for_sizes(1)[OF assms(2)] by blast
qed

lemma dom_foldl_map_add: "dom (foldl (++) m ms) = dom m \<union> (\<Union>d \<in> set ms. dom d)"
  by (induction ms arbitrary: m) auto

lemma process_all_dom:
  "dom (files (process_all w ps out md st))
     = dom (files st) \<union> (\<Union>p \<in> set ps. dom (written w out md p))"
  by (simp add: process_all_eq dom_foldl_map_add)

section \<open>The batch\<close>

lemma map_insort_key: "map f (insort_key f x xs) = insort (f x) (map f xs)"
  by (induction xs) simp_all

lemma map_sort_key: "map f (sort_key f xs) = sort (map f xs)"
  by (induction xs) (simp_all add: map_insort_key)

lemma images_of_names:
  "map p_name (images_of w d) = sort (map fst (filter matched (iterdir w d)))"
  by (simp add: images_of_def map_sort_key comp_def)

lemma images_of_parent: "p \<in> set (images_of w d) \<Longrightarrow> p_parent p = d"
  by (auto simp: images_of_def)

lemma batch_ok:
  assumes "path_exists w i" and "is_dir w i" and "mkdir_error w out = None"
  shows "fst (batch w i out md st) = Exit 0"
    and "images_of w i \<noteq> [] \<Longrightarrow> snd (batch w i out md st) =
      process_all w (images_of w i) out md (print (Announce (length (images_of w i)) i out md) st)"
  using assms by (simp_all add: batch_def Let_def)

lemma print_simps: "files (print l st) = files st" "stdout (print l st) = stdout st @ [l]"
  by (simp_all add: print_def)

lemma empty_sys_simps: "files empty_sys = Map.empty" "stdout empty_sys = []"
  by (simp_all add: empty_sys_def)

lemma render_ok:
  assumes "0 < im_width img" and "im_width img < 2 ^ 31"
    and "0 < im_height img" and "im_height img < 2 ^ 31" and "s \<in> set SIZES"
  shows "\<exists>im. render md img s = Inr im"
proof (cases "md = ''cover''")
  case True
  have s: "0 < s" using SIZES_bounds[OF assms(5)] by simp
  define e where "e = exif_transpose img"
  have pos: "0 < im_width e" "0 < im_height e"
    using exif_transpose_pos[OF assms(1,3)] by (simp_all add: e_def)
  define side where "side = min (im_width e) (im_height e)"
  have sp: "0 < side" using pos by (simp add: side_def)
  define box where "box = ((im_width e - side) div 2, (im_height e - side) div 2,
      (im_width e - side) div 2 + side, (im_height e - side) div 2 + side)"
  obtain c where c: "crop e box = Inr c" using sp by (simp add: crop_def box_def)
  have "\<exists>r. resize c (s, s) LANCZOS = Inr r" using s by (simp add: resize_def Let_def)
  then obtain r where r: "resize c (s, s) LANCZOS = Inr r" ..
  have "\<exists>im. make_square_cover img s = Inr im"
    using c r
    by (simp add: make_square_cover_def Let_def im_size_def e_def[symmetric] side_def[symmetric]
        box_def[symmetric])
  then show ?thesis using True by (simp add: render_def)
next
  case False
  have s: "0 < s" using SIZES_bounds[OF assms(5)] by simp
  have sz: "im_width (fit_source img) = im_width (exif_transpose img)"
    "im_height (fit_source img) = im_height (exif_transpose img)"
    using fit_source_size[of img] by (simp_all add: im_size_def)
  have pos: "0 < im_width (fit_source img)" "0 < im_height (fit_source img)"
    using exif_transpose_pos[OF assms(1,3)] by (simp_all add: sz)
  have bnd: "im_width (fit_source img) < 2 ^ 31" "im_height (fit_source img) < 2 ^ 31"
    using exif_transpose_bound[OF assms(2,4)] by (simp_all add: sz)
  have md: "im_mode (fit_source img) \<notin> {''1'', ''P''}"
    using fit_source_mode[of img] by auto
  from thumbnail_square[OF pos assms(5) bnd md, of LANCZOS]
  obtain t where "thumbnail (fit_source img) (s, s) LANCZOS = Inr t" by blast
  then have "\<exists>im. make_square_fit img s = Inr im"
    using s by (simp add: make_square_fit_unfold new_def)
  then show ?thesis using False by (simp add: render_def)
qed

lemma for_sizes_all_ok:
  assumes "\<And>s. s \<in> set ss \<Longrightarrow> \<exists>im. render md img s = Inr im"
    and "\<And>s. s \<in> set ss \<Longrightarrow> save_error w (joinpath out (out_name p s)) = None"
  shows "snd (for_sizes w img p out md ss st) = None"
  using assms
proof (induction ss arbitrary: st)
  case Nil
  show ?case by simp
next
  case (Cons a ss)
  from Cons.prems(1)[of a] obtain im where im: "render md img a = Inr im" by auto
  have sv: "save_error w (joinpath out (out_name p a)) = None" using Cons.prems(2)[of a] by simp
  have "snd (for_sizes w img p out md ss
      (st\<lparr>files := (files st)(joinpath out (out_name p a) \<mapsto> im)\<rparr>)) = None"
    using Cons.prems by (intro Cons.IH) simp_all
  then show ?case unfolding for_sizes_Cons using im sv by simp
qed

lemma failure_NoneI:
  assumes "image_open w (path_str p) = Inr img"
    and "0 < im_width img" and "im_width img < 2 ^ 31"
    and "0 < im_height img" and "im_height img < 2 ^ 31"
    and "list_all (\<lambda>s. save_error w (joinpath out (out_name p s)) = None) SIZES"
  shows "failure w out md p = None"
proof -
  have "snd (for_sizes w img p out md SIZES empty_sys) = None"
  proof (rule for_sizes_all_ok)
    fix s assume "s \<in> set SIZES"
    then show "\<exists>im. render md img s = Inr im" by (rule render_ok[OF assms(2-5)])
  next
    fix s assume "s \<in> set SIZES"
    then show "save_error w (joinpath out (out_name p s)) = None"
      using assms(6) by (simp add: list_all_iff)
  qed
  then show ?thesis using assms(1) by (simp add: failure_def)
qed

lemma status_line_ok:
  assumes "failure w out md p = None"
  shows "status_line w out md p = Plain (''OK  : '' @ p_name p)"
  using assms by (simp add: status_line_def)

text \<open>
  Claim C4. The loop over the files prints exactly one line per file, in order, whatever
  happens to the other files. An exception raised while a file is opened, decoded,
  transformed or saved ends the processing of that file only and is reported as
  \<open>FEHLER bei <path>: <message>\<close>; every file that raises nothing has its six outputs
  in the directory at the end of the loop; and once the batch is reached, \<open>main\<close> ends
  with status 0 whether or not a file failed.
\<close>

theorem errors_caught_per_file:
  fixes w :: world and argv :: "string list" and st :: sys and in_dir out_dir :: string
  shows "stdout (process_all w ps out md st) = stdout st @ map (status_line w out md) ps
    \<and> (failure w out md p = Some e \<longrightarrow>
          status_line w out md p = Plain (''FEHLER bei '' @ path_str p @ '': '' @ str_error e)
          \<and> stdout (process_image w p out md st)
              = stdout st @ [Plain (''FEHLER bei '' @ path_str p @ '': '' @ str_error e)])
    \<and> (image_open w (path_str p) = Inl e \<longrightarrow> failure w out md p = Some e)
    \<and> (q \<in> set ps \<and> failure w out md q = None \<and> s \<in> set SIZES \<longrightarrow>
          joinpath out (out_name q s) \<in> dom (files (process_all w ps out md st)))
    \<and> (3 \<le> length argv
         \<and> (4 \<le> length argv \<longrightarrow>
               lower (argv ! 3) \<in> {''fit'', ''cover'', ''--mode=fit'', ''--mode=cover''})
         \<and> resolve w (argv ! 1) = Inr in_dir \<and> resolve w (argv ! 2) = Inr out_dir
         \<and> path_exists w in_dir \<and> is_dir w in_dir \<and> mkdir_error w out_dir = None
         \<longrightarrow> fst (main w argv st) = Exit 0)"
proof -
  have a: "stdout (process_all w ps out md st) = stdout st @ map (status_line w out md) ps"
    by (simp add: process_all_eq)
  have b: "status_line w out md p = Plain (''FEHLER bei '' @ path_str p @ '': '' @ str_error e)
      \<and> stdout (process_image w p out md st)
          = stdout st @ [Plain (''FEHLER bei '' @ path_str p @ '': '' @ str_error e)]"
    if "failure w out md p = Some e"
    using that by (simp add: process_image_eq status_line_def)
  have c: "failure w out md p = Some e" if "image_open w (path_str p) = Inl e"
    using that by (rule written_open_error(2))
  have d: "joinpath out (out_name q s) \<in> dom (files (process_all w ps out md st))"
    if "q \<in> set ps" "failure w out md q = None" "s \<in> set SIZES"
  proof -
    have "joinpath out (out_name q s) \<in> dom (written w out md q)"
      unfolding written_dom_ok[OF that(2)] using that(3) by blast
    then show ?thesis unfolding process_all_dom using that(1) by blast
  qed
  have e: "fst (main w argv st) = Exit 0"
    if "3 \<le> length argv"
      "4 \<le> length argv \<longrightarrow>
         lower (argv ! 3) \<in> {''fit'', ''cover'', ''--mode=fit'', ''--mode=cover''}"
      "resolve w (argv ! 1) = Inr in_dir" "resolve w (argv ! 2) = Inr out_dir"
      "path_exists w in_dir" "is_dir w in_dir" "mkdir_error w out_dir = None"
  proof -
    from main_mode_valid[OF that(1,2,3,4)]
    obtain m where "main w argv st = batch w in_dir out_dir m st" by blast
    then show ?thesis using batch_ok(1)[OF that(5,6,7)] by simp
  qed
  show ?thesis using a b c d e by blast
qed

theorem errors_caught_per_file_witness:
  "failure cli_world ''/out'' ''fit'' \<lparr>p_parent = ''/in'', p_name = ''b.PNG''\<rparr>
     = Some (OSError ''cannot identify image file'')
   \<and> failure cli_world ''/out'' ''fit'' \<lparr>p_parent = ''/in'', p_name = ''photo.jpg''\<rparr> = None
   \<and> stdout (process_all cli_world (images_of cli_world ''/in'') ''/out'' ''fit'' empty_sys)
       = [Plain ''FEHLER bei /in/a.tar.JPeG: cannot identify image file'',
          Plain ''FEHLER bei /in/b.PNG: cannot identify image file'',
          Plain ''OK  : photo.jpg'']
   \<and> ''/out/photo_32x32.png''
        \<in> dom (files (process_all cli_world (images_of cli_world ''/in'') ''/out'' ''fit'' empty_sys))
   \<and> resolve cli_world ''/in'' = Inr ''/in'' \<and> resolve cli_world ''/out'' = Inr ''/out''
   \<and> fst (main cli_world [''scale_images.py'', ''/in'', ''/out''] empty_sys) = Exit 0"
proof -
  define a where "a = \<lparr>p_parent = ''/in'', p_name = ''a.tar.JPeG''\<rparr>"
  define b where "b = \<lparr>p_parent = ''/in'', p_name = ''b.PNG''\<rparr>"
  define f where "f = \<lparr>p_parent = ''/in'', p_name = ''photo.jpg''\<rparr>"
  define argv where "argv = [''scale_images.py'', ''/in'', ''/out'']"
  have im: "images_of cli_world ''/in'' = [a, b, f]" unfolding a_def b_def f_def by code_simp
  have fb: "failure cli_world ''/out'' ''fit'' b = Some (OSError ''cannot identify image file'')"
    unfolding b_def by code_simp
  have ff: "failure cli_world ''/out'' ''fit'' f = None"
  proof (rule failure_NoneI)
    show "image_open cli_world (path_str f) = Inr photo" unfolding f_def by code_simp
    show "list_all (\<lambda>s. save_error cli_world (joinpath ''/out'' (out_name f s)) = None) SIZES"
      by (simp add: cli_world_def list_all_iff)
  qed (simp_all add: photo_def)
  have sa: "status_line cli_world ''/out'' ''fit'' a
      = Plain ''FEHLER bei /in/a.tar.JPeG: cannot identify image file''"
    unfolding a_def by code_simp
  have sb: "status_line cli_world ''/out'' ''fit'' b
      = Plain ''FEHLER bei /in/b.PNG: cannot identify image file''"
    unfolding b_def by code_simp
  have sf: "status_line cli_world ''/out'' ''fit'' f = Plain ''OK  : photo.jpg''"
    using status_line_ok[OF ff] by (simp add: f_def)
  have sl: "map (status_line cli_world ''/out'' ''fit'') [a, b, f]
      = [Plain ''FEHLER bei /in/a.tar.JPeG: cannot identify image file'',
          Plain ''FEHLER bei /in/b.PNG: cannot identify image file'',
          Plain ''OK  : photo.jpg'']"
    using sa sb sf by simp
  have nm: "joinpath ''/out'' (out_name f 32) = ''/out/photo_32x32.png''"
    unfolding f_def by code_simp
  have h: "3 \<le> length argv"
    "4 \<le> length argv \<longrightarrow>
       lower (argv ! 3) \<in> {''fit'', ''cover'', ''--mode=fit'', ''--mode=cover''}"
    "resolve cli_world (argv ! 1) = Inr ''/in''" "resolve cli_world (argv ! 2) = Inr ''/out''"
    "path_exists cli_world ''/in''" "is_dir cli_world ''/in''"
    "mkdir_error cli_world ''/out'' = None"
    by (simp_all add: cli_world_def argv_def startswith_def)
  have q: "f \<in> set [a, b, f]" "(32::int) \<in> set SIZES" by (simp_all add: SIZES_def)
  note T = errors_caught_per_file[where w = cli_world and ps = "[a, b, f]" and out = "''/out''"
      and md = "''fit''" and st = empty_sys and p = b
      and e = "OSError ''cannot identify image file''" and q = f and s = 32 and argv = argv
      and in_dir = "''/in''" and out_dir = "''/out''"]
  from T have c1: "stdout (process_all cli_world [a, b, f] ''/out'' ''fit'' empty_sys)
      = stdout empty_sys @ map (status_line cli_world ''/out'' ''fit'') [a, b, f]"
    by (rule conjunct1)
  from T q ff have c4: "joinpath ''/out'' (out_name f 32)
      \<in> dom (files (process_all cli_world [a, b, f] ''/out'' ''fit'' empty_sys))"
    by blast
  from T h have c5: "fst (main cli_world argv empty_sys) = Exit 0"
    by blast
  show ?thesis
    unfolding im b_def[symmetric] f_def[symmetric] argv_def[symmetric]
    using fb ff c1 c4 c5 h(3,4) unfolding sl nm by (simp add: empty_sys_simps argv_def)
qed

text \<open>
  Claim C6. The files that \<open>main\<close> processes are the entries of the input directory that
  are files and whose suffix, lowercased, is in the allow-list; their names are in sorted
  order. The console holds the announcement and then one status line for each of these
  files, in that order, and nothing else; every file written is an output of one of them.
\<close>

theorem matched_files_in_order:
  fixes w :: world and argv :: "string list" and st :: sys and in_dir out_dir :: string
  defines "images \<equiv> images_of w in_dir"
  shows "map p_name images = sort (map fst (filter matched (iterdir w in_dir)))
    \<and> sorted (map p_name images)
    \<and> set (map p_parent images) \<subseteq> {in_dir}
    \<and> (matched (n, f) \<longleftrightarrow>
          f \<and> lower (suffix n) \<in> {''.jpg'', ''.jpeg'', ''.png'', ''.webp'', ''.bmp'', ''.tif'',
                                    ''.tiff'', ''.heic''})
    \<and> (3 \<le> length argv
         \<and> (4 \<le> length argv \<longrightarrow>
               lower (argv ! 3) \<in> {''fit'', ''cover'', ''--mode=fit'', ''--mode=cover''})
         \<and> resolve w (argv ! 1) = Inr in_dir \<and> resolve w (argv ! 2) = Inr out_dir
         \<and> path_exists w in_dir \<and> is_dir w in_dir \<and> mkdir_error w out_dir = None
         \<and> images \<noteq> []
         \<longrightarrow> (\<exists>md. (md = ''fit'' \<or> md = ''cover'')
               \<and> stdout (snd (main w argv st))
                   = stdout st @ Announce (length images) in_dir out_dir md
                       # map (status_line w out_dir md) images
               \<and> dom (files (snd (main w argv st)))
                   \<subseteq> dom (files st)
                      \<union> (\<lambda>(p, s). joinpath out_dir (out_name p s)) ` (set images \<times> set SIZES)))"
proof -
  have a: "map p_name images = sort (map fst (filter matched (iterdir w in_dir)))"
    unfolding images_def by (rule images_of_names)
  have b: "sorted (map p_name images)" unfolding a by simp
  have c: "set (map p_parent images) \<subseteq> {in_dir}"
    unfolding images_def using images_of_parent by fastforce
  have d: "matched (n, f) \<longleftrightarrow>
          f \<and> lower (suffix n) \<in> {''.jpg'', ''.jpeg'', ''.png'', ''.webp'', ''.bmp'', ''.tif'',
                                    ''.tiff'', ''.heic''}"
    by (simp add: matched_def SUPPORTED_SUFFIXES_def)
  have e: "\<exists>md. (md = ''fit'' \<or> md = ''cover'')
               \<and> stdout (snd (main w argv st))
                   = stdout st @ Announce (length images) in_dir out_dir md
                       # map (status_line w out_dir md) images
               \<and> dom (files (snd (main w argv st)))
                   \<subseteq> dom (files st)
                      \<union> (\<lambda>(p, s). joinpath out_dir (out_name p s)) ` (set images \<times> set SIZES)"
    if "3 \<le> length argv"
      "4 \<le> length argv \<longrightarrow>
         lower (argv ! 3) \<in> {''fit'', ''cover'', ''--mode=fit'', ''--mode=cover''}"
      "resolve w (argv ! 1) = Inr in_dir" "resolve w (argv ! 2) = Inr out_dir"
      "path_exists w in_dir" "is_dir w in_dir" "mkdir_error w out_dir = None" "images \<noteq> []"
  proof -
    from main_mode_valid[OF that(1,2,3,4)]
    obtain md where md: "md = ''fit'' \<or> md = ''cover''"
      and m: "main w argv st = batch w in_dir out_dir md st"
      by blast
    have s: "snd (main w argv st) = process_all w images out_dir md
        (print (Announce (length images) in_dir out_dir md) st)"
      unfolding m images_def using batch_ok(2)[OF that(5,6,7)] that(8)[unfolded images_def] by blast
    have o: "stdout (snd (main w argv st))
        = stdout st @ Announce (length images) in_dir out_dir md
            # map (status_line w out_dir md) images"
      unfolding s by (simp add: process_all_eq print_simps)
    have "dom (written w out_dir md p) \<subseteq>
        (\<lambda>(p, s). joinpath out_dir (out_name p s)) ` (set images \<times> set SIZES)"
      if "p \<in> set images" for p
      using written_dom_subset[of w out_dir md p] that by auto
    then have f: "dom (files (snd (main w argv st)))
       \<subseteq> dom (files st)
          \<union> (\<lambda>(p, s). joinpath out_dir (out_name p s)) ` (set images \<times> set SIZES)"
      unfolding s process_all_dom by (auto simp: print_simps)
    show ?thesis using md o f by blast
  qed
  show ?thesis using a b c d e by blast
qed

theorem matched_files_in_order_witness:
  "(3::nat) \<le> length [''scale_images.py'', ''/in'', ''/out'']
   \<and> resolve cli_world ''/in'' = Inr ''/in'' \<and> resolve cli_world ''/out'' = Inr ''/out''
   \<and> path_exists cli_world ''/in'' \<and> is_dir cli_world ''/in'' \<and> mkdir_error cli_world ''/out'' = None
   \<and> map p_name (images_of cli_world ''/in'') = [''a.tar.JPeG'', ''b.PNG'', ''photo.jpg'']
   \<and> map p_name (images_of cli_world ''/in'')
       = sort (map fst (filter matched (iterdir cli_world ''/in'')))
   \<and> \<not> matched (''notes.txt'', True) \<and> \<not> matched (''sub.png'', False)
   \<and> (\<exists>md. (md = ''fit'' \<or> md = ''cover'')
        \<and> stdout (snd (main cli_world [''scale_images.py'', ''/in'', ''/out''] empty_sys))
            = Announce 3 ''/in'' ''/out'' md
                # map (status_line cli_world ''/out'' md) (images_of cli_world ''/in''))"
proof -
  define argv where "argv = [''scale_images.py'', ''/in'', ''/out'']"
  have r: "resolve cli_world (argv ! 1) = Inr ''/in''" "resolve cli_world (argv ! 2) = Inr ''/out''"
    by (simp_all add: cli_world_def argv_def startswith_def)
  have h: "3 \<le> length argv"
    "4 \<le> length argv \<longrightarrow>
       lower (argv ! 3) \<in> {''fit'', ''cover'', ''--mode=fit'', ''--mode=cover''}"
    "path_exists cli_world ''/in''" "is_dir cli_world ''/in''"
    "mkdir_error cli_world ''/out'' = None"
    by (simp_all add: cli_world_def argv_def)
  have n: "map p_name (images_of cli_world ''/in'') = [''a.tar.JPeG'', ''b.PNG'', ''photo.jpg'']"
    by code_simp
  then have ne: "images_of cli_world ''/in'' \<noteq> []" "length (images_of cli_world ''/in'') = 3"
    by (auto dest: arg_cong[where f = length])
  have m: "\<not> matched (''notes.txt'', True)" "\<not> matched (''sub.png'', False)" by code_simp+
  note T = matched_files_in_order[where w = cli_world and argv = argv and n = "''notes.txt''"
      and f = True and st = empty_sys and in_dir = "''/in''" and out_dir = "''/out''"]
  from T have c1: "map p_name (images_of cli_world ''/in'')
       = sort (map fst (filter matched (iterdir cli_world ''/in'')))" by (rule conjunct1)
  from T h r ne(1) obtain md where "md = ''fit'' \<or> md = ''cover''"
    "stdout (snd (main cli_world argv empty_sys))
      = stdout empty_sys @ Announce (length (images_of cli_world ''/in'')) ''/in'' ''/out'' md
          # map (status_line cli_world ''/out'' md) (images_of cli_world ''/in'')"
    by blast
  then have c5: "\<exists>md. (md = ''fit'' \<or> md = ''cover'')
        \<and> stdout (snd (main cli_world argv empty_sys))
            = Announce 3 ''/in'' ''/out'' md
                # map (status_line cli_world ''/out'' md) (images_of cli_world ''/in'')"
    unfolding ne(2) by (auto simp: empty_sys_simps)
  have r': "resolve cli_world ''/in'' = Inr ''/in''" "resolve cli_world ''/out'' = Inr ''/out''"
    using r by (simp_all add: argv_def)
  show ?thesis unfolding argv_def[symmetric] using h(1,3,4,5) r' n c1 m c5 by blast
qed






text \<open>
  Claim C9. Two files with the same stem have the same output names for every size. The
  one processed last determines the content under these names, whatever was written there
  before. A batch that holds two different files of one stem leaves fewer than
  \<open>N \<times> 6\<close> files, and the console holds the status lines only: nothing warns.
\<close>

theorem stem_collision:
  assumes "stem (p_name p) = stem (p_name q)"
  shows "out_name p s = out_name q s
    \<and> (failure w out md q = None \<and> image_open w (path_str q) = Inr img \<and> s \<in> set SIZES
         \<longrightarrow> (\<exists>im. render md img s = Inr im
               \<and> files (process_all w (ps @ [q]) out md st) (joinpath out (out_name p s)) = Some im))
    \<and> (p \<in> set qs \<and> q \<in> set qs \<and> p \<noteq> q \<and> files st = Map.empty
         \<longrightarrow> card (dom (files (process_all w qs out md st))) < length qs * 6)
    \<and> stdout (process_all w qs out md st) = stdout st @ map (status_line w out md) qs"
proof -
  have a: "out_name p s = out_name q s" using assms by (simp add: out_name_def)
  have b: "\<exists>im. render md img s = Inr im
      \<and> files (process_all w (ps @ [q]) out md st) (joinpath out (out_name p s)) = Some im"
    if "failure w out md q = None" "image_open w (path_str q) = Inr img" "s \<in> set SIZES"
  proof -
    from written_content[OF that] obtain im where im: "render md img s = Inr im"
      "written w out md q (joinpath out (out_name q s)) = Some im" by blast
    have "files (process_all w (ps @ [q]) out md st)
        = foldl (++) (files st) (map (written w out md) ps) ++ written w out md q"
      by (simp add: process_all_eq)
    then show ?thesis using im a by simp
  qed
  have c: "card (dom (files (process_all w qs out md st))) < length qs * 6"
    if "p \<in> set qs" "q \<in> set qs" "p \<noteq> q" "files st = Map.empty"
  proof -
    define stems where "stems = (\<lambda>p. stem (p_name p)) ` set qs"
    define names where "names = (\<lambda>(t, s). joinpath out (t @ size_tag s)) ` (stems \<times> set SIZES)"
    have "\<not> inj_on (\<lambda>p. stem (p_name p)) (set qs)"
      using that(1,2,3) assms by (auto simp: inj_on_def)
    then have "card stems < card (set qs)"
      unfolding stems_def
      by (metis List.finite_set card_image_le eq_card_imp_inj_on le_neq_implies_less)
    also have "\<dots> \<le> length qs" by (rule card_length)
    finally have cs: "card stems < length qs" .
    have fin: "finite stems" unfolding stems_def by simp
    have "dom (written w out md r) \<subseteq> names" if "r \<in> set qs" for r
    proof -
      have "(\<lambda>s. joinpath out (out_name r s)) ` set SIZES \<subseteq> names"
        unfolding names_def stems_def using that by (auto simp: out_name_tag)
      with written_dom_subset[of w out md r] show ?thesis by blast
    qed
    then have "dom (files (process_all w qs out md st)) \<subseteq> names"
      unfolding process_all_dom using that(4) by auto
    moreover have fn: "finite names" unfolding names_def using fin by simp
    ultimately have "card (dom (files (process_all w qs out md st))) \<le> card names"
      by (simp add: card_mono)
    also have "\<dots> \<le> card (stems \<times> set SIZES)"
      unfolding names_def using fin by (intro card_image_le) simp
    also have "\<dots> = card stems * 6"
      by (simp add: card_cartesian_product SIZES_def)
    also have "\<dots> < length qs * 6" using cs by simp
    finally show ?thesis .
  qed
  have d: "stdout (process_all w qs out md st) = stdout st @ map (status_line w out md) qs"
    by (simp add: process_all_eq)
  show ?thesis using a b c d by blast
qed

theorem stem_collision_witness:
  "stem (p_name \<lparr>p_parent = ''/twins'', p_name = ''photo.jpg''\<rparr>)
     = stem (p_name \<lparr>p_parent = ''/twins'', p_name = ''photo.png''\<rparr>)
   \<and> out_name \<lparr>p_parent = ''/twins'', p_name = ''photo.jpg''\<rparr> 128
       = out_name \<lparr>p_parent = ''/twins'', p_name = ''photo.png''\<rparr> 128
   \<and> images_of batch_world ''/twins''
       = [\<lparr>p_parent = ''/twins'', p_name = ''photo.jpg''\<rparr>,
          \<lparr>p_parent = ''/twins'', p_name = ''photo.png''\<rparr>]
   \<and> image_open batch_world ''/twins/photo.png'' = Inr scan
   \<and> (\<exists>im. make_square_fit scan 128 = Inr im
        \<and> files (process_all batch_world (images_of batch_world ''/twins'') ''/out'' ''fit'' empty_sys)
             ''/out/photo_128x128.png'' = Some im)
   \<and> card (dom (files (process_all batch_world (images_of batch_world ''/twins'') ''/out'' ''fit''
                          empty_sys))) < 12
   \<and> stdout (process_all batch_world (images_of batch_world ''/twins'') ''/out'' ''fit'' empty_sys)
       = [Plain ''OK  : photo.jpg'', Plain ''OK  : photo.png'']"
proof -
  define a where "a = \<lparr>p_parent = ''/twins'', p_name = ''photo.jpg''\<rparr>"
  define b where "b = \<lparr>p_parent = ''/twins'', p_name = ''photo.png''\<rparr>"
  have im: "images_of batch_world ''/twins'' = [a, b]" unfolding a_def b_def by code_simp
  have h: "stem (p_name a) = stem (p_name b)" unfolding a_def b_def by code_simp
  have o: "image_open batch_world (path_str b) = Inr scan" "path_str b = ''/twins/photo.png''"
    unfolding b_def by code_simp+
  have fa: "failure batch_world ''/out'' ''fit'' a = None"
  proof (rule failure_NoneI)
    show "image_open batch_world (path_str a) = Inr photo" unfolding a_def by code_simp
    show "list_all (\<lambda>s. save_error batch_world (joinpath ''/out'' (out_name a s)) = None) SIZES"
      unfolding a_def by code_simp
  qed (simp_all add: photo_def)
  have f: "failure batch_world ''/out'' ''fit'' b = None"
  proof (rule failure_NoneI)
    show "image_open batch_world (path_str b) = Inr scan" by (rule o(1))
    show "list_all (\<lambda>s. save_error batch_world (joinpath ''/out'' (out_name b s)) = None) SIZES"
      unfolding b_def by code_simp
  qed (simp_all add: scan_def)
  have n: "joinpath ''/out'' (out_name a 128) = ''/out/photo_128x128.png''"
    unfolding a_def by code_simp
  have sl: "map (status_line batch_world ''/out'' ''fit'') [a, b]
      = [Plain ''OK  : photo.jpg'', Plain ''OK  : photo.png'']"
    using status_line_ok[OF fa] status_line_ok[OF f] by (simp add: a_def b_def)
  have q: "a \<in> set [a, b]" "b \<in> set [a, b]" "a \<noteq> b" "(128::int) \<in> set SIZES"
    "files empty_sys = Map.empty"
    by (simp_all add: a_def b_def SIZES_def empty_sys_simps)
  note T = stem_collision[OF h, of 128 batch_world "''/out''" "''fit''" scan "[a]" empty_sys "[a, b]"]
  from T have c1: "out_name a 128 = out_name b 128" by (rule conjunct1)
  from T f o(1) q(4) obtain i where "render ''fit'' scan 128 = Inr i"
    "files (process_all batch_world ([a] @ [b]) ''/out'' ''fit'' empty_sys)
       (joinpath ''/out'' (out_name a 128)) = Some i" by blast
  then have c2: "\<exists>im. make_square_fit scan 128 = Inr im
        \<and> files (process_all batch_world [a, b] ''/out'' ''fit'' empty_sys)
             ''/out/photo_128x128.png'' = Some im"
    unfolding n by (simp add: render_def)
  from T q have "card (dom (files (process_all batch_world [a, b] ''/out'' ''fit'' empty_sys)))
      < length [a, b] * 6" by blast
  then have c3: "card (dom (files (process_all batch_world [a, b] ''/out'' ''fit'' empty_sys))) < 12"
    by simp
  from T have "stdout (process_all batch_world [a, b] ''/out'' ''fit'' empty_sys)
      = stdout empty_sys @ map (status_line batch_world ''/out'' ''fit'') [a, b]" by blast
  then have c4: "stdout (process_all batch_world [a, b] ''/out'' ''fit'' empty_sys)
      = [Plain ''OK  : photo.jpg'', Plain ''OK  : photo.png'']"
    unfolding sl by (simp add: empty_sys_simps)
  show ?thesis
    unfolding im a_def[symmetric] b_def[symmetric]
    using h c1 o c2 c3 c4 by (simp only: simp_thms)
qed

end
